theory Spec2Isabelle
  imports Complex_Main "HOL-Library.Char_ord"
begin

section \<open>Tokens (src/main.py, lines 12-62)\<close>

text \<open>
  The enumeration \<^verbatim>\<open>TokenType\<close>, in the order of the source.
\<close>

datatype TokenType =
    LEFT_PAREN | RIGHT_PAREN | LEFT_BRACE | RIGHT_BRACE
  | STAR | DOT | COMMA | PLUS | MINUS | SEMICOLON
  | EQUAL | EQUAL_EQUAL | BANG | BANG_EQUAL
  | LESS | LESS_EQUAL | GREATER | GREATER_EQUAL
  | SLASH | STRING | NUMBER | IDENTIFIER
  | AND | CLASS | ELSE | FALSE | FOR | FUN | IF | NIL | OR
  | PRINT | RETURN | SUPER | THIS | TRUE | VAR | WHILE
  | EOF

text \<open>
  The field \<^verbatim>\<open>literal: Any | None\<close> holds either nothing, the inner text of a string
  literal, or the result of \<^verbatim>\<open>float(...)\<close>. The floats that \<^verbatim>\<open>float\<close> returns on a text
  of digits are the binary64 values that are not negative: a finite one, given by the
  rational number it denotes, or \<^verbatim>\<open>inf\<close>.
\<close>

datatype pyfloat = Finite rat | Infinity

datatype pyval = PyStr string | PyFloat pyfloat

record Token =
  type :: TokenType
  lexeme :: string
  literal :: "pyval option"
  line :: nat

section \<open>Python primitives used by the scanner\<close>

datatype py_error = IndexError | ValueError

text \<open>
  \<^verbatim>\<open>xs[a:b]\<close> for indices \<open>0 \<le> a\<close> and \<open>0 \<le> b\<close> (the scanner's cursors start at 0 and
  are only ever incremented, so they are natural numbers). A slice never raises.
\<close>

definition slice :: "'a list \<Rightarrow> nat \<Rightarrow> nat \<Rightarrow> 'a list" where
  "slice xs a b = drop a (take b xs)"

text \<open>\<^verbatim>\<open>str(n)\<close> for a non-negative integer, as the f-strings of the diagnostics use it.\<close>

fun str_nat :: "nat \<Rightarrow> string" where
  "str_nat n =
     (if n < 10 then [''0123456789'' ! n]
      else str_nat (n div 10) @ [''0123456789'' ! (n mod 10)])"

declare str_nat.simps [simp del]

text \<open>
  The comparison \<^verbatim>\<open>char >= "0" and char <= "9"\<close> of \<^verbatim>\<open>Scanner.is_digit\<close> compares code
  points. Characters are modelled by \<^typ>\<open>char\<close> (one byte); a code point beyond that
  range takes the same branches as any byte above 127 does.
\<close>

definition is_digit :: "char \<Rightarrow> bool" where
  "is_digit c = (c \<ge> CHR ''0'' \<and> c \<le> CHR ''9'')"

definition is_alpha :: "char \<Rightarrow> bool" where
  "is_alpha c =
     (c \<ge> CHR ''a'' \<and> c \<le> CHR ''z'' \<or> c \<ge> CHR ''A'' \<and> c \<le> CHR ''Z'' \<or> c = CHR ''_'')"

definition is_alpha_numeric :: "char \<Rightarrow> bool" where
  "is_alpha_numeric c = (is_alpha c \<or> is_digit c)"

subsection \<open>The builtin float on decimal texts\<close>

text \<open>
  \<^verbatim>\<open>float(text)\<close> reads a decimal numeral and returns the binary64 value nearest to it
  (IEEE 754 round to nearest, ties to even; \<^verbatim>\<open>inf\<close> when the rounded value does not fit).
  \<open>round_binary64 n d\<close> is that value for the quotient of the integers \<open>n \<ge> 0\<close> and \<open>d > 0\<close>:
  with \<open>e\<close> the binary exponent of the quotient (not below that of the smallest normal
  number), the quotient is rounded to a multiple of \<open>2\<^sup>e\<^sup>-\<^sup>5\<^sup>2\<close>.
  \<open>bit_length\<close> is \<^verbatim>\<open>int.bit_length\<close>.
\<close>

function bit_length :: "int \<Rightarrow> nat" where
  "bit_length n = (if n \<le> 0 then 0 else Suc (bit_length (n div 2)))"
  by pat_completeness auto
termination
  by (relation "measure nat") auto

declare bit_length.simps [simp del]

definition pow2 :: "int \<Rightarrow> rat" where
  "pow2 e = (if e \<ge> 0 then 2 ^ nat e else 1 / 2 ^ nat (- e))"

definition floor_log2 :: "int \<Rightarrow> int \<Rightarrow> int" where
  "floor_log2 n d =
     (let s = int (bit_length n) - int (bit_length d) in
      if n * 2 ^ nat (- s) \<ge> d * 2 ^ nat s then s else s - 1)"

definition round_binary64 :: "int \<Rightarrow> int \<Rightarrow> pyfloat" where
  "round_binary64 n d =
     (if n = 0 then Finite 0
      else
        (let e = max (floor_log2 n d) (- 1022);
             sh = e - 52;
             num = n * 2 ^ nat (- sh);
             den = d * 2 ^ nat sh;
             q = num div den;
             r = num mod den;
             m = (if 2 * r < den then q
                  else if 2 * r > den then q + 1
                  else if even q then q else q + 1);
             v = of_int m * pow2 sh
         in if v \<ge> pow2 1024 then Infinity else Finite v))"

text \<open>
  The value of a run of ASCII digits, and \<^verbatim>\<open>float(text)\<close> for a text made of ASCII digits
  and dots: with at most one dot and at least one digit the text is a decimal numeral,
  whose digits give the numerator and whose digits after the dot give the power of ten
  of the denominator; otherwise \<^verbatim>\<open>float\<close> raises \<^verbatim>\<open>ValueError\<close>. Texts with other characters
  (signs, exponents, underscores, blanks), which \<^verbatim>\<open>Scanner.number\<close> never builds, are not
  modelled: on them the model raises \<^verbatim>\<open>ValueError\<close>.
\<close>

definition digit_val :: "char \<Rightarrow> int" where
  "digit_val c = of_char c - 48"

definition digits_val :: "string \<Rightarrow> int" where
  "digits_val ds = foldl (\<lambda>a c. 10 * a + digit_val c) 0 ds"

definition decimal_float :: "string \<Rightarrow> pyfloat" where
  "decimal_float text =
     (let ip = takeWhile is_digit text; fp = drop 1 (dropWhile is_digit text) in
      round_binary64 (digits_val (ip @ fp)) (10 ^ length fp))"

definition py_float :: "string \<Rightarrow> py_error + pyfloat" where
  "py_float text =
     (let ip = takeWhile is_digit text; r = dropWhile is_digit text; fp = drop 1 r in
      if (r = [] \<or> hd r = CHR ''.'' \<and> list_all is_digit fp) \<and> ip @ fp \<noteq> []
      then Inr (decimal_float text)
      else Inl ValueError)"

section \<open>The scanner state (src/main.py, lines 64-71)\<close>

record Scanner =
  source :: string
  tokens :: "Token list"
  start :: nat
  current :: nat
  line :: nat
  errors :: "string list"

text \<open>\<^verbatim>\<open>Scanner.__init__\<close>.\<close>

definition Scanner_init :: "string \<Rightarrow> Scanner" where
  "Scanner_init src =
     \<lparr>source = src, tokens = [], start = 0, current = 0, line = 1, errors = []\<rparr>"

section \<open>Cursor operations (src/main.py, lines 80-81 and 134-156)\<close>

definition is_at_end :: "Scanner \<Rightarrow> bool" where
  "is_at_end s = (current s \<ge> length (source s))"

text \<open>
  \<^verbatim>\<open>advance\<close> increments the cursor and then reads \<^verbatim>\<open>source[current - 1]\<close> with no check
  of its own: out of range it raises \<^verbatim>\<open>IndexError\<close>.
\<close>

definition advance :: "Scanner \<Rightarrow> py_error + (char \<times> Scanner)" where
  "advance s =
     (let s' = s\<lparr>current := current s + 1\<rparr> in
      if current s' - 1 < length (source s') then Inr (source s' ! (current s' - 1), s')
      else Inl IndexError)"

definition add_token :: "TokenType \<Rightarrow> pyval option \<Rightarrow> Scanner \<Rightarrow> Scanner" where
  "add_token ty lit s =
     (let text = slice (source s) (start s) (current s) in
      s\<lparr>tokens := tokens s @ [\<lparr>type = ty, lexeme = text, literal = lit, line = line s\<rparr>]\<rparr>)"

definition peek :: "Scanner \<Rightarrow> char" where
  "peek s = (if is_at_end s then CHR 0x00 else source s ! current s)"

definition peek_next :: "Scanner \<Rightarrow> char" where
  "peek_next s =
     (if current s + 1 \<ge> length (source s) then CHR 0x00 else source s ! (current s + 1))"

definition match :: "char \<Rightarrow> Scanner \<Rightarrow> bool \<times> Scanner" where
  "match expected s =
     (if is_at_end s then (False, s)
      else if source s ! current s \<noteq> expected then (False, s)
      else (True, s\<lparr>current := current s + 1\<rparr>))"

text \<open>\<^verbatim>\<open>Scanner.error\<close> (lines 217-218).\<close>

definition error :: "string \<Rightarrow> Scanner \<Rightarrow> Scanner" where
  "error msg s = s\<lparr>errors := errors s @ [''[line '' @ str_nat (line s) @ ''] Error: '' @ msg]\<rparr>"

text \<open>
  Two notions used to state what the loops do: the number of newline characters of a text
  (\<^verbatim>\<open>text.count("\n")\<close>), and the part of the source at and after the cursor
  (\<^verbatim>\<open>source[current:]\<close>).
\<close>

definition newlines :: "string \<Rightarrow> nat" where
  "newlines text = length (filter (\<lambda>c. c = CHR 0x0A) text)"

definition rest :: "Scanner \<Rightarrow> string" where
  "rest s = drop (current s) (source s)"

text \<open>
  The text a number literal is made of, read off the remaining source: the longest run of
  digits, and then a dot with the run of digits after it when the dot is directly followed
  by a digit.
\<close>

definition number_lexeme :: "string \<Rightarrow> string" where
  "number_lexeme text =
     (let d1 = takeWhile is_digit text; r = dropWhile is_digit text in
      case r of
        p # q # _ \<Rightarrow> if p = CHR ''.'' \<and> is_digit q then d1 @ p # takeWhile is_digit (tl r) else d1
      | _ \<Rightarrow> d1)"

section \<open>The loops of the sub-scanners\<close>

text \<open>
  Each \<^verbatim>\<open>while\<close> loop of the source is a recursive function on the scanner state. A call
  of \<^verbatim>\<open>advance\<close> that raises ends the loop with the error.

  The comment loop of \<^verbatim>\<open>scan_token\<close> (lines 116-117):
  \<^verbatim>\<open>while self.peek() != "\n" and not self.is_at_end(): self.advance()\<close>
\<close>

function skip_comment :: "Scanner \<Rightarrow> py_error + Scanner" where
  "skip_comment s =
     (if peek s \<noteq> CHR 0x0A \<and> \<not> is_at_end s then
        (case advance s of Inl e \<Rightarrow> Inl e | Inr (c, s') \<Rightarrow> skip_comment s')
      else Inr s)"
  by pat_completeness auto
termination
  by (relation "measure (\<lambda>s. length (source s) - current s)")
     (auto simp: advance_def is_at_end_def Let_def split: if_splits)

declare skip_comment.simps [simp del]

text \<open>
  The loop of \<^verbatim>\<open>string\<close> (lines 159-162): it counts the newlines it passes.
\<close>

function string_loop :: "Scanner \<Rightarrow> py_error + Scanner" where
  "string_loop s =
     (if peek s \<noteq> CHR 0x22 \<and> \<not> is_at_end s then
        (let s1 = (if peek s = CHR 0x0A then s\<lparr>line := line s + 1\<rparr> else s) in
         case advance s1 of Inl e \<Rightarrow> Inl e | Inr (c, s') \<Rightarrow> string_loop s')
      else Inr s)"
  by pat_completeness auto
termination
  by (relation "measure (\<lambda>s. length (source s) - current s)")
     (auto simp: advance_def is_at_end_def Let_def split: if_splits)

declare string_loop.simps [simp del]

text \<open>
  The two digit loops of \<^verbatim>\<open>number\<close> (lines 174-175 and 178-179) have the same text:
  \<^verbatim>\<open>while self.is_digit(self.peek()): self.advance()\<close>
\<close>

function digits :: "Scanner \<Rightarrow> py_error + Scanner" where
  "digits s =
     (if is_digit (peek s) then
        (case advance s of Inl e \<Rightarrow> Inl e | Inr (c, s') \<Rightarrow> digits s')
      else Inr s)"
  by pat_completeness auto
termination
  by (relation "measure (\<lambda>s. length (source s) - current s)")
     (auto simp: advance_def is_at_end_def peek_def is_digit_def Let_def split: if_splits)

declare digits.simps [simp del]

text \<open>
  The loop of \<^verbatim>\<open>identifier\<close> (lines 189-190):
  \<^verbatim>\<open>while self.is_alpha_numeric(self.peek()): self.advance()\<close>
\<close>

function identifier_loop :: "Scanner \<Rightarrow> py_error + Scanner" where
  "identifier_loop s =
     (if is_alpha_numeric (peek s) then
        (case advance s of Inl e \<Rightarrow> Inl e | Inr (c, s') \<Rightarrow> identifier_loop s')
      else Inr s)"
  by pat_completeness auto
termination
  by (relation "measure (\<lambda>s. length (source s) - current s)")
     (auto simp: advance_def is_at_end_def peek_def is_alpha_numeric_def is_alpha_def
        is_digit_def Let_def split: if_splits)

declare identifier_loop.simps [simp del]

subsection \<open>What the loops compute\<close>

text \<open>
  Inside the source \<^verbatim>\<open>advance\<close> returns the character under the cursor and moves the
  cursor by one; each loop moves the cursor over the longest prefix of the remaining
  source whose characters pass the loop's test, and never raises.
\<close>

lemma advance_in_range:
  "\<not> is_at_end s \<Longrightarrow> advance s = Inr (peek s, s\<lparr>current := Suc (current s)\<rparr>)"
  by (simp add: advance_def is_at_end_def peek_def)

lemma rest_not_at_end:
  "\<not> is_at_end s \<Longrightarrow> rest s = peek s # rest (s\<lparr>current := Suc (current s)\<rparr>)"
  by (simp add: rest_def is_at_end_def peek_def Cons_nth_drop_Suc)

lemma rest_at_end: "is_at_end s \<Longrightarrow> rest s = []"
  by (simp add: rest_def is_at_end_def)

lemma peek_at_end: "is_at_end s \<Longrightarrow> peek s = CHR 0x00"
  by (simp add: peek_def)

lemma skip_comment_eq:
  "skip_comment s =
     Inr (s\<lparr>current := current s + length (takeWhile (\<lambda>c. c \<noteq> CHR 0x0A) (rest s))\<rparr>)"
proof (induction s rule: skip_comment.induct)
  case (1 s)
  show ?case
  proof (cases "peek s \<noteq> CHR 0x0A \<and> \<not> is_at_end s")
    case True
    then have adv: "advance s = Inr (peek s, s\<lparr>current := Suc (current s)\<rparr>)"
      by (simp add: advance_in_range)
    from "1" [OF True adv refl] True adv show ?thesis
      by (subst skip_comment.simps) (simp add: rest_not_at_end [of s])
  next
    case False
    then show ?thesis
      by (subst skip_comment.simps) (cases "is_at_end s"; simp add: rest_at_end rest_not_at_end)
  qed
qed

lemma string_loop_eq:
  "string_loop s =
     (let body = takeWhile (\<lambda>c. c \<noteq> CHR 0x22) (rest s) in
      Inr (s\<lparr>current := current s + length body, line := line s + newlines body\<rparr>))"
proof (induction s rule: string_loop.induct)
  case (1 s)
  show ?case
  proof (cases "peek s \<noteq> CHR 0x22 \<and> \<not> is_at_end s")
    case True
    define s1 where "s1 = (if peek s = CHR 0x0A then s\<lparr>line := line s + 1\<rparr> else s)"
    have ne: "\<not> is_at_end s1" and pk: "peek s1 = peek s"
      using True by (auto simp: s1_def is_at_end_def peek_def)
    then have adv: "advance s1 = Inr (peek s, s1\<lparr>current := Suc (current s1)\<rparr>)"
      by (simp add: advance_in_range)
    have r: "rest (s1\<lparr>current := Suc (current s1)\<rparr>) = rest (s\<lparr>current := Suc (current s)\<rparr>)"
      by (simp add: s1_def rest_def)
    from "1" [OF True s1_def adv refl] True adv r show ?thesis
      by (subst string_loop.simps)
         (simp add: rest_not_at_end [of s] Let_def s1_def [symmetric], simp add: s1_def newlines_def)
  next
    case False
    then show ?thesis
      by (subst string_loop.simps) (cases "is_at_end s"; simp add: rest_at_end rest_not_at_end newlines_def)
  qed
qed

lemma digits_eq:
  "digits s = Inr (s\<lparr>current := current s + length (takeWhile is_digit (rest s))\<rparr>)"
proof (induction s rule: digits.induct)
  case (1 s)
  show ?case
  proof (cases "is_digit (peek s)")
    case True
    then have ne: "\<not> is_at_end s"
      by (auto simp: peek_def is_digit_def)
    then have adv: "advance s = Inr (peek s, s\<lparr>current := Suc (current s)\<rparr>)"
      by (simp add: advance_in_range)
    from "1" [OF True adv refl] True adv show ?thesis
      by (subst digits.simps) (simp add: rest_not_at_end [OF ne])
  next
    case False
    then show ?thesis
      by (subst digits.simps) (cases "is_at_end s"; simp add: rest_at_end rest_not_at_end)
  qed
qed

lemma identifier_loop_eq:
  "identifier_loop s =
     Inr (s\<lparr>current := current s + length (takeWhile is_alpha_numeric (rest s))\<rparr>)"
proof (induction s rule: identifier_loop.induct)
  case (1 s)
  show ?case
  proof (cases "is_alpha_numeric (peek s)")
    case True
    then have ne: "\<not> is_at_end s"
      by (auto simp: peek_def is_digit_def is_alpha_def is_alpha_numeric_def)
    then have adv: "advance s = Inr (peek s, s\<lparr>current := Suc (current s)\<rparr>)"
      by (simp add: advance_in_range)
    from "1" [OF True adv refl] True adv show ?thesis
      by (subst identifier_loop.simps) (simp add: rest_not_at_end [OF ne])
  next
    case False
    then show ?thesis
      by (subst identifier_loop.simps) (cases "is_at_end s"; simp add: rest_at_end rest_not_at_end)
  qed
qed

section \<open>The sub-scanners (src/main.py, lines 158-215)\<close>

definition string :: "Scanner \<Rightarrow> py_error + Scanner" where
  "string s =
     (case string_loop s of
        Inl e \<Rightarrow> Inl e
      | Inr s1 \<Rightarrow>
          if is_at_end s1 then
            Inr (s1\<lparr>errors := errors s1 @
                  [''[line '' @ str_nat (line s1) @ ''] Error: Unterminated string.'']\<rparr>)
          else
            (case advance s1 of
               Inl e \<Rightarrow> Inl e
             | Inr (c, s2) \<Rightarrow>
                 (let value = slice (source s2) (start s2 + 1) (current s2 - 1) in
                  Inr (add_token STRING (Some (PyStr value)) s2))))"

definition number :: "Scanner \<Rightarrow> py_error + Scanner" where
  "number s =
     (case digits s of
        Inl e \<Rightarrow> Inl e
      | Inr s1 \<Rightarrow>
          (case (if peek s1 = CHR ''.'' \<and> is_digit (peek_next s1)
                 then (case advance s1 of Inl e \<Rightarrow> Inl e | Inr (c, s2) \<Rightarrow> Inr s2)
                 else Inr s1) of
             Inl e \<Rightarrow> Inl e
           | Inr s2 \<Rightarrow>
               (case digits s2 of
                  Inl e \<Rightarrow> Inl e
                | Inr s3 \<Rightarrow>
                    (case py_float (slice (source s3) (start s3) (current s3)) of
                       Inl e \<Rightarrow> Inl e
                     | Inr v \<Rightarrow> Inr (add_token NUMBER (Some (PyFloat v)) s3)))))"

text \<open>The dictionary \<^verbatim>\<open>reserved_words\<close> of \<^verbatim>\<open>identifier_type\<close>, in the order of the source.\<close>

definition reserved_words :: "(string \<times> TokenType) list" where
  "reserved_words =
     [(''and'', AND), (''class'', CLASS), (''else'', ELSE), (''false'', FALSE),
      (''for'', FOR), (''fun'', FUN), (''if'', IF), (''nil'', NIL), (''or'', OR),
      (''print'', PRINT), (''return'', RETURN), (''super'', SUPER), (''this'', THIS),
      (''true'', TRUE), (''var'', VAR), (''while'', WHILE)]"

text \<open>\<^verbatim>\<open>reserved_words.get(text, TokenType.IDENTIFIER)\<close>.\<close>

definition identifier_type :: "string \<Rightarrow> TokenType" where
  "identifier_type text =
     (case map_of reserved_words text of Some t \<Rightarrow> t | None \<Rightarrow> IDENTIFIER)"

definition "identifier" :: "Scanner \<Rightarrow> py_error + Scanner" where
  "identifier s =
     (case identifier_loop s of
        Inl e \<Rightarrow> Inl e
      | Inr s1 \<Rightarrow>
          (let text = slice (source s1) (start s1) (current s1);
               token_type = identifier_type text
           in Inr (add_token token_type None s1)))"

section \<open>The dispatch (src/main.py, lines 83-132)\<close>

text \<open>
  \<^verbatim>\<open>self.add_token(A) if self.match("=") else self.add_token(B)\<close>, the body of the four
  operator cases.
\<close>

definition match_equal :: "TokenType \<Rightarrow> TokenType \<Rightarrow> Scanner \<Rightarrow> Scanner" where
  "match_equal two one s =
     (case match (CHR ''='') s of
        (True, s') \<Rightarrow> add_token two None s'
      | (False, s') \<Rightarrow> add_token one None s')"

definition scan_token :: "Scanner \<Rightarrow> py_error + Scanner" where
  "scan_token s =
     (case advance s of
        Inl e \<Rightarrow> Inl e
      | Inr (char, s1) \<Rightarrow>
          if char = CHR ''('' then Inr (add_token LEFT_PAREN None s1)
          else if char = CHR '')'' then Inr (add_token RIGHT_PAREN None s1)
          else if char = CHR ''{'' then Inr (add_token LEFT_BRACE None s1)
          else if char = CHR ''}'' then Inr (add_token RIGHT_BRACE None s1)
          else if char = CHR ''*'' then Inr (add_token STAR None s1)
          else if char = CHR ''.'' then Inr (add_token DOT None s1)
          else if char = CHR '','' then Inr (add_token COMMA None s1)
          else if char = CHR ''+'' then Inr (add_token PLUS None s1)
          else if char = CHR ''-'' then Inr (add_token MINUS None s1)
          else if char = CHR '';'' then Inr (add_token SEMICOLON None s1)
          else if char = CHR ''!'' then Inr (match_equal BANG_EQUAL BANG s1)
          else if char = CHR ''='' then Inr (match_equal EQUAL_EQUAL EQUAL s1)
          else if char = CHR ''<'' then Inr (match_equal LESS_EQUAL LESS s1)
          else if char = CHR ''>'' then Inr (match_equal GREATER_EQUAL GREATER s1)
          else if char = CHR ''/'' then
            (case match (CHR ''/'') s1 of
               (True, s2) \<Rightarrow> skip_comment s2
             | (False, s2) \<Rightarrow> Inr (add_token SLASH None s2))
          else if char = CHR '' '' \<or> char = CHR 0x0D \<or> char = CHR 0x09 then Inr s1
          else if char = CHR 0x0A then Inr (s1\<lparr>line := line s1 + 1\<rparr>)
          else if char = CHR 0x22 then string s1
          else if is_digit char then number s1
          else if is_alpha_numeric char then identifier s1
          else Inr (error (''Unexpected character: '' @ [char]) s1))"

subsection \<open>What the sub-scanners compute\<close>

text \<open>
  The cursor operations in terms of the remaining source, and the three sub-scanners
  with their loops replaced by what the loops compute.
\<close>

lemma peek_rest: "peek s = (case rest s of [] \<Rightarrow> CHR 0x00 | c # _ \<Rightarrow> c)"
  by (cases "is_at_end s") (simp_all add: rest_at_end rest_not_at_end peek_at_end)

lemma rest_move: "rest (s\<lparr>current := current s + n\<rparr>) = drop n (rest s)"
  by (simp add: rest_def add.commute)

lemma rest_Suc: "rest (s\<lparr>current := Suc (current s)\<rparr>) = drop 1 (rest s)"
  using rest_move [of s 1] by simp

lemma peek_next_rest:
  "peek_next s = (case rest s of c # d # _ \<Rightarrow> d | _ \<Rightarrow> CHR 0x00)"
proof (cases "current s + 1 \<ge> length (source s)")
  case True
  then have "length (rest s) \<le> 1" by (simp add: rest_def)
  then show ?thesis using True
    by (cases "rest s"; simp add: peek_next_def)
next
  case False
  then have "rest s = source s ! current s # source s ! (current s + 1) # drop (current s + 2) (source s)"
    by (simp add: rest_def Cons_nth_drop_Suc)
  then show ?thesis using False by (simp add: peek_next_def)
qed

lemma is_at_end_rest: "is_at_end s \<longleftrightarrow> rest s = []"
  by (simp add: is_at_end_def rest_def)

lemma slice_rest: "slice (source s) (current s) (current s + n) = take n (rest s)"
  by (simp add: slice_def rest_def take_drop add.commute)

lemma not_digit_dot [simp]: "\<not> is_digit (CHR ''.'')" "\<not> is_digit (CHR 0x00)"
  by (simp_all add: is_digit_def)

lemma number_eq:
  "number s =
     (let n = length (number_lexeme (rest s)) in
      case py_float (slice (source s) (start s) (current s + n)) of
        Inl e \<Rightarrow> Inl e
      | Inr v \<Rightarrow> Inr (add_token NUMBER (Some (PyFloat v)) (s\<lparr>current := current s + n\<rparr>)))"
proof -
  define d1 where "d1 = takeWhile is_digit (rest s)"
  define r where "r = dropWhile is_digit (rest s)"
  define s1 where "s1 = s\<lparr>current := current s + length d1\<rparr>"
  have dg1: "digits s = Inr s1"
    by (simp add: digits_eq s1_def d1_def)
  have r1: "rest s1 = r"
    by (simp add: s1_def rest_move d1_def r_def dropWhile_eq_drop)
  have hd_r: "r \<noteq> [] \<Longrightarrow> \<not> is_digit (hd r)"
    unfolding r_def by (rule hd_dropWhile)
  show ?thesis
  proof (cases "peek s1 = CHR ''.'' \<and> is_digit (peek_next s1)")
    case True
    then obtain q t where r: "r = CHR ''.'' # q # t" and q: "is_digit q"
      by (auto simp: peek_rest peek_next_rest r1 split: list.splits)
    define s2 where "s2 = s1\<lparr>current := Suc (current s1)\<rparr>"
    define s3 where "s3 = s2\<lparr>current := current s2 + length (takeWhile is_digit (q # t))\<rparr>"
    have ne: "\<not> is_at_end s1" by (simp add: is_at_end_rest r1 r)
    have adv: "advance s1 = Inr (CHR ''.'', s2)"
      using advance_in_range [OF ne] True by (simp add: s2_def)
    have "rest s2 = q # t"
      by (simp add: s2_def rest_Suc r1 r)
    then have dg2: "digits s2 = Inr s3"
      by (simp add: digits_eq s3_def)
    have nl: "number_lexeme (rest s) = d1 @ CHR ''.'' # takeWhile is_digit (q # t)"
      by (simp add: number_lexeme_def d1_def [symmetric] r_def [symmetric] r q)
    have s3: "s3 = s\<lparr>current := current s + length (number_lexeme (rest s))\<rparr>"
      by (simp add: s3_def s2_def s1_def nl)
    have "number s =
        (case py_float (slice (source s3) (start s3) (current s3)) of
           Inl e \<Rightarrow> Inl e
         | Inr v \<Rightarrow> Inr (add_token NUMBER (Some (PyFloat v)) s3))"
      using True by (simp add: number_def dg1 adv dg2)
    then show ?thesis
      unfolding s3 Let_def by simp
  next
    case False
    then have nl: "number_lexeme (rest s) = d1"
      by (auto simp: number_lexeme_def d1_def [symmetric] r_def [symmetric]
          peek_rest peek_next_rest r1 split: list.splits)
    have "takeWhile is_digit r = []"
      using hd_r by (cases r) simp_all
    then have dg2: "digits s1 = Inr s1"
      by (simp add: digits_eq r1)
    have c: "(if peek s1 = CHR ''.'' \<and> is_digit (peek_next s1)
              then (case advance s1 of Inl e \<Rightarrow> Inl e | Inr (c, s2) \<Rightarrow> Inr s2)
              else Inr s1) = Inr s1"
      using False by auto
    have s1: "s1 = s\<lparr>current := current s + length (number_lexeme (rest s))\<rparr>"
      by (simp add: s1_def nl)
    have "number s =
        (case py_float (slice (source s1) (start s1) (current s1)) of
           Inl e \<Rightarrow> Inl e
         | Inr v \<Rightarrow> Inr (add_token NUMBER (Some (PyFloat v)) s1))"
      unfolding number_def dg1 by (simp only: sum.case c dg2)
    then show ?thesis
      unfolding s1 Let_def by simp
  qed
qed

lemma string_eq:
  "string s =
     (let body = takeWhile (\<lambda>c. c \<noteq> CHR 0x22) (rest s);
          s1 = s\<lparr>current := current s + length body, line := line s + newlines body\<rparr>
      in if dropWhile (\<lambda>c. c \<noteq> CHR 0x22) (rest s) = [] then
           Inr (s1\<lparr>errors := errors s1 @
                 [''[line '' @ str_nat (line s1) @ ''] Error: Unterminated string.'']\<rparr>)
         else
           Inr (add_token STRING (Some (PyStr (slice (source s) (start s + 1) (current s1))))
                  (s1\<lparr>current := Suc (current s1)\<rparr>)))"
proof -
  define body where "body = takeWhile (\<lambda>c. c \<noteq> CHR 0x22) (rest s)"
  define s1 where "s1 = s\<lparr>current := current s + length body, line := line s + newlines body\<rparr>"
  have "rest s1 = drop (length body) (rest s)"
    by (simp add: s1_def rest_def add.commute)
  then have r1: "rest s1 = dropWhile (\<lambda>c. c \<noteq> CHR 0x22) (rest s)"
    by (simp add: body_def dropWhile_eq_drop)
  show ?thesis
    by (simp add: string_def string_loop_eq Let_def body_def [symmetric] s1_def [symmetric]
        is_at_end_rest r1 [symmetric] advance_in_range)
       (simp add: s1_def)
qed

lemma identifier_eq:
  "identifier s =
     (let n = length (takeWhile is_alpha_numeric (rest s)) in
      Inr (add_token (identifier_type (slice (source s) (start s) (current s + n))) None
             (s\<lparr>current := current s + n\<rparr>)))"
  by (simp add: identifier_def identifier_loop_eq Let_def)

section \<open>One step of the scanner\<close>

text \<open>
  \<open>stepped s s'\<close> relates the scanner before and after one call of \<^verbatim>\<open>scan_token\<close>: the
  call consumes a non-empty text \<open>w\<close> from the front of the remaining source, adds the
  newlines of \<open>w\<close> to the line counter, and appends at most one token, whose lexeme is \<open>w\<close>
  and whose line is the line counter after the call.
\<close>

definition stepped :: "Scanner \<Rightarrow> Scanner \<Rightarrow> bool" where
  "stepped s s' \<longleftrightarrow>
     (\<exists>w r. w \<noteq> [] \<and> rest s = w @ r \<and>
        source s' = source s \<and> start s' = start s \<and>
        current s' = current s + length w \<and>
        line s' = line s + newlines w \<and>
        (tokens s' = tokens s \<or>
         (\<exists>ty lit. ty \<noteq> EOF \<and> (ty \<noteq> STRING \<longrightarrow> newlines w = 0) \<and>
            tokens s' = tokens s @ [\<lparr>type = ty, lexeme = w, literal = lit, line = line s'\<rparr>])))"

lemma take_length_takeWhile [simp]: "take (length (takeWhile P xs)) xs = takeWhile P xs"
  by (simp add: takeWhile_eq_take [symmetric])

lemma newlines_simps [simp]:
  "newlines [] = 0"
  "newlines (c # cs) = (if c = CHR 0x0A then 1 else 0) + newlines cs"
  "newlines (xs @ ys) = newlines xs + newlines ys"
  by (simp_all add: newlines_def)

lemma newlines_takeWhile: "\<not> P (CHR 0x0A) \<Longrightarrow> newlines (takeWhile P xs) = 0"
  by (induction xs) auto

lemma number_lexeme_prefix: "\<exists>r. xs = number_lexeme xs @ r"
proof -
  define d where "d = takeWhile is_digit xs"
  define r where "r = dropWhile is_digit xs"
  have a: "xs = d @ r" by (simp add: d_def r_def)
  have nl: "number_lexeme xs =
      (case r of
         p # q # u \<Rightarrow> if p = CHR ''.'' \<and> is_digit q then d @ p # takeWhile is_digit (tl r) else d
       | _ \<Rightarrow> d)"
    unfolding number_lexeme_def Let_def d_def r_def by (rule refl)
  show ?thesis
  proof (cases "\<exists>q u. r = CHR ''.'' # q # u \<and> is_digit q")
    case True
    then obtain q u where r: "r = CHR ''.'' # q # u" and q: "is_digit q" by blast
    have "xs = (d @ CHR ''.'' # takeWhile is_digit (q # u)) @ dropWhile is_digit (q # u)"
      unfolding a r by simp
    moreover have "number_lexeme xs = d @ CHR ''.'' # takeWhile is_digit (q # u)"
      unfolding nl r using q by simp
    ultimately show ?thesis by metis
  next
    case False
    then have "number_lexeme xs = d"
      unfolding nl by (auto split: list.splits)
    with a show ?thesis by metis
  qed
qed

lemma newlines_number_lexeme: "newlines (number_lexeme xs) = 0"
  by (auto simp: number_lexeme_def Let_def newlines_takeWhile is_digit_def split: list.splits)

subsection \<open>The classes of the dispatch\<close>

text \<open>
  The cases of the \<^verbatim>\<open>match\<close> statement, grouped to state what each one does: the ten
  characters that are a token by themselves, the four operator characters with the kinds
  they give with and without a following \<^verbatim>\<open>=\<close>, and the three characters that are skipped.
\<close>

definition single_char :: "char \<Rightarrow> TokenType option" where
  "single_char = map_of
     [(CHR ''('', LEFT_PAREN), (CHR '')'', RIGHT_PAREN), (CHR ''{'', LEFT_BRACE),
      (CHR ''}'', RIGHT_BRACE), (CHR ''*'', STAR), (CHR ''.'', DOT), (CHR '','', COMMA),
      (CHR ''+'', PLUS), (CHR ''-'', MINUS), (CHR '';'', SEMICOLON)]"

definition operator :: "char \<Rightarrow> (TokenType \<times> TokenType) option" where
  "operator = map_of
     [(CHR ''!'', (BANG_EQUAL, BANG)), (CHR ''='', (EQUAL_EQUAL, EQUAL)),
      (CHR ''<'', (LESS_EQUAL, LESS)), (CHR ''>'', (GREATER_EQUAL, GREATER))]"

definition whitespace :: "char \<Rightarrow> bool" where
  "whitespace c \<longleftrightarrow> c = CHR '' '' \<or> c = CHR 0x0D \<or> c = CHR 0x09"

lemma advance_rest:
  "rest s = c # r \<Longrightarrow> advance s = Inr (c, s\<lparr>current := Suc (current s)\<rparr>)"
  using advance_in_range [of s] by (simp add: is_at_end_rest peek_rest)

lemma rest_Suc_Cons: "rest s = c # r \<Longrightarrow> rest (s\<lparr>current := Suc (current s)\<rparr>) = r"
  by (simp add: rest_Suc)

lemma match_rest:
  "match e s =
     (case rest s of
        [] \<Rightarrow> (False, s)
      | d # _ \<Rightarrow> if d = e then (True, s\<lparr>current := Suc (current s)\<rparr>) else (False, s))"
proof (cases "is_at_end s")
  case True
  then show ?thesis by (simp add: match_def rest_at_end)
next
  case False
  then have "source s ! current s = peek s" by (simp add: peek_def)
  with False show ?thesis
    by (simp add: match_def rest_not_at_end)
qed

lemma single_char_None:
  "single_char c = None \<longleftrightarrow>
     c \<noteq> CHR ''('' \<and> c \<noteq> CHR '')'' \<and> c \<noteq> CHR ''{'' \<and> c \<noteq> CHR ''}'' \<and> c \<noteq> CHR ''*'' \<and>
     c \<noteq> CHR ''.'' \<and> c \<noteq> CHR '','' \<and> c \<noteq> CHR ''+'' \<and> c \<noteq> CHR ''-'' \<and> c \<noteq> CHR '';''"
  unfolding single_char_def map_of_eq_None_iff by simp

lemma single_char_Some:
  "single_char c = Some ty \<longleftrightarrow>
     (c, ty) \<in> {(CHR ''('', LEFT_PAREN), (CHR '')'', RIGHT_PAREN), (CHR ''{'', LEFT_BRACE),
      (CHR ''}'', RIGHT_BRACE), (CHR ''*'', STAR), (CHR ''.'', DOT), (CHR '','', COMMA),
      (CHR ''+'', PLUS), (CHR ''-'', MINUS), (CHR '';'', SEMICOLON)}"
  unfolding single_char_def by (subst map_of_eq_Some_iff) simp_all

lemma operator_None:
  "operator c = None \<longleftrightarrow> c \<noteq> CHR ''!'' \<and> c \<noteq> CHR ''='' \<and> c \<noteq> CHR ''<'' \<and> c \<noteq> CHR ''>''"
  unfolding operator_def map_of_eq_None_iff by simp

lemma operator_Some:
  "operator c = Some p \<longleftrightarrow>
     (c, p) \<in> {(CHR ''!'', (BANG_EQUAL, BANG)), (CHR ''='', (EQUAL_EQUAL, EQUAL)),
      (CHR ''<'', (LESS_EQUAL, LESS)), (CHR ''>'', (GREATER_EQUAL, GREATER))}"
  unfolding operator_def by (subst map_of_eq_Some_iff) simp_all

lemma scan_token_single_char:
  assumes "rest s = c # r" "single_char c = Some ty"
  shows "scan_token s = Inr (add_token ty None (s\<lparr>current := Suc (current s)\<rparr>))"
  using assms(2) unfolding scan_token_def advance_rest [OF assms(1)] single_char_Some
  by (elim insertE emptyE) simp_all

lemma scan_token_operator:
  assumes "rest s = c # r" "operator c = Some (two, one)"
  shows "scan_token s =
    Inr (case r of
           [] \<Rightarrow> add_token one None (s\<lparr>current := Suc (current s)\<rparr>)
         | d # _ \<Rightarrow>
             if d = CHR ''='' then add_token two None (s\<lparr>current := Suc (Suc (current s))\<rparr>)
             else add_token one None (s\<lparr>current := Suc (current s)\<rparr>))"
  using assms(2) unfolding scan_token_def advance_rest [OF assms(1)] operator_Some
  by (elim insertE emptyE)
     (simp_all add: match_equal_def match_rest rest_Suc_Cons [OF assms(1)] split: list.splits)

lemma scan_token_slash:
  assumes "rest s = CHR ''/'' # r"
  shows "scan_token s =
    Inr (case r of
           [] \<Rightarrow> add_token SLASH None (s\<lparr>current := Suc (current s)\<rparr>)
         | d # r' \<Rightarrow>
             if d = CHR ''/''
             then s\<lparr>current := Suc (Suc (current s)) +
                    length (takeWhile (\<lambda>c. c \<noteq> CHR 0x0A) r')\<rparr>
             else add_token SLASH None (s\<lparr>current := Suc (current s)\<rparr>))"
proof -
  let ?s1 = "s\<lparr>current := Suc (current s)\<rparr>"
  have r1: "rest ?s1 = r" by (rule rest_Suc_Cons [OF assms])
  have st: "scan_token s =
      (case match (CHR ''/'') ?s1 of
         (True, s2) \<Rightarrow> skip_comment s2
       | (False, s2) \<Rightarrow> Inr (add_token SLASH None s2))"
    unfolding scan_token_def advance_rest [OF assms] by simp
  show ?thesis
  proof (cases r)
    case Nil
    then show ?thesis unfolding st by (simp add: match_rest r1)
  next
    case (Cons d r')
    have "rest (?s1\<lparr>current := Suc (current ?s1)\<rparr>) = r'"
      by (rule rest_Suc_Cons [of _ d]) (simp add: r1 Cons)
    then show ?thesis unfolding st by (simp add: match_rest r1 Cons skip_comment_eq)
  qed
qed

lemma scan_token_whitespace:
  assumes "rest s = c # r" "whitespace c"
  shows "scan_token s = Inr (s\<lparr>current := Suc (current s)\<rparr>)"
  using assms(2) unfolding scan_token_def advance_rest [OF assms(1)] whitespace_def
  by (elim disjE) simp_all

lemma scan_token_newline:
  assumes "rest s = CHR 0x0A # r"
  shows "scan_token s = Inr (s\<lparr>current := Suc (current s), line := line s + 1\<rparr>)"
  unfolding scan_token_def advance_rest [OF assms]
  by simp

lemma scan_token_quote:
  assumes "rest s = CHR 0x22 # r"
  shows "scan_token s = string (s\<lparr>current := Suc (current s)\<rparr>)"
  unfolding scan_token_def advance_rest [OF assms]
  by simp

lemma scan_token_default:
  assumes "rest s = c # r" "single_char c = None" "operator c = None" "c \<noteq> CHR ''/''"
    "\<not> whitespace c" "c \<noteq> CHR 0x0A" "c \<noteq> CHR 0x22"
  shows "scan_token s =
    (if is_digit c then number (s\<lparr>current := Suc (current s)\<rparr>)
     else if is_alpha_numeric c then identifier (s\<lparr>current := Suc (current s)\<rparr>)
     else Inr (error (''Unexpected character: '' @ [c]) (s\<lparr>current := Suc (current s)\<rparr>)))"
  using assms(2-) unfolding scan_token_def advance_rest [OF assms(1)]
  by (simp add: single_char_None operator_None whitespace_def)

lemma digit_not_special:
  assumes "is_digit c"
  shows "single_char c = None" "operator c = None" "c \<noteq> CHR ''/''"
    "\<not> whitespace c" "c \<noteq> CHR 0x0A" "c \<noteq> CHR 0x22"
  using assms unfolding single_char_None operator_None whitespace_def is_digit_def
  by auto

lemma alpha_not_special:
  assumes "is_alpha c"
  shows "single_char c = None" "operator c = None" "c \<noteq> CHR ''/''"
    "\<not> whitespace c" "c \<noteq> CHR 0x0A" "c \<noteq> CHR 0x22" "\<not> is_digit c"
  using assms
  unfolding single_char_None operator_None whitespace_def is_digit_def is_alpha_def
    less_eq_char_def
  by auto

lemma scan_token_digit:
  assumes "rest s = c # r" "is_digit c"
  shows "scan_token s = number (s\<lparr>current := Suc (current s)\<rparr>)"
  using scan_token_default [OF assms(1) digit_not_special [OF assms(2)]] assms(2) by simp

lemma scan_token_alpha:
  assumes "rest s = c # r" "is_alpha c"
  shows "scan_token s = identifier (s\<lparr>current := Suc (current s)\<rparr>)"
  using scan_token_default [OF assms(1) alpha_not_special(1-6) [OF assms(2)]]
    alpha_not_special(7) [OF assms(2)] assms(2)
  by (simp add: is_alpha_numeric_def)

lemma scan_token_other:
  assumes "rest s = c # r" "single_char c = None" "operator c = None" "c \<noteq> CHR ''/''"
    "\<not> whitespace c" "c \<noteq> CHR 0x0A" "c \<noteq> CHR 0x22" "\<not> is_digit c" "\<not> is_alpha c"
  shows "scan_token s =
    Inr (error (''Unexpected character: '' @ [c]) (s\<lparr>current := Suc (current s)\<rparr>))"
  using scan_token_default [OF assms(1-7)] assms(8,9)
  by (simp add: is_alpha_numeric_def)

subsection \<open>Literals and identifiers\<close>

text \<open>
  \<^verbatim>\<open>float\<close> does not raise on the text of a number literal, and the three sub-scanners
  called from a loop head (where \<^verbatim>\<open>start = current\<close>) give these states.
\<close>

lemma py_float_digits:
  assumes "d \<noteq> []" "\<forall>x\<in>set d. is_digit x"
  shows "py_float d = Inr (decimal_float d)"
proof -
  have tw: "takeWhile is_digit d = d" and dw: "dropWhile is_digit d = []"
    using assms(2) by simp_all
  show ?thesis unfolding py_float_def Let_def tw dw using assms(1) by simp
qed

lemma py_float_fraction:
  assumes "d \<noteq> []" "\<forall>x\<in>set d. is_digit x" "\<forall>x\<in>set f. is_digit x"
  shows "py_float (d @ CHR ''.'' # f) = Inr (decimal_float (d @ CHR ''.'' # f))"
proof -
  have tw: "takeWhile is_digit (d @ CHR ''.'' # f) = d"
    using assms(2) by (simp add: takeWhile_append2)
  have dw: "dropWhile is_digit (d @ CHR ''.'' # f) = CHR ''.'' # f"
    using assms(2) by (simp add: dropWhile_append2)
  show ?thesis unfolding py_float_def Let_def tw dw using assms(1,3)
    by (simp add: list_all_iff)
qed

lemma number_lexeme_Cons:
  assumes "is_digit c"
  shows "number_lexeme (c # r) = c # number_lexeme r"
proof (cases "dropWhile is_digit r")
  case Nil
  then show ?thesis using assms
    by (simp add: number_lexeme_def del: dropWhile_eq_Nil_conv)
next
  case (Cons p t)
  then show ?thesis using assms
    by (cases t) (simp_all add: number_lexeme_def Let_def)
qed

lemma number_lexeme_shape:
  "number_lexeme r = takeWhile is_digit r \<or>
   (\<exists>f. (\<forall>x\<in>set f. is_digit x) \<and> number_lexeme r = takeWhile is_digit r @ CHR ''.'' # f)"
proof -
  have "\<forall>x\<in>set (takeWhile is_digit ys). is_digit x" for ys
    by (auto dest: set_takeWhileD)
  then show ?thesis
    unfolding number_lexeme_def Let_def by (auto split: list.splits)
qed

lemma py_float_number_lexeme:
  assumes "is_digit c"
  shows "py_float (c # number_lexeme r) = Inr (decimal_float (c # number_lexeme r))"
proof -
  let ?d = "c # takeWhile is_digit r"
  have d: "?d \<noteq> []" "\<forall>x\<in>set ?d. is_digit x"
    using assms by (auto dest: set_takeWhileD)
  from number_lexeme_shape [of r] show ?thesis
  proof
    assume "number_lexeme r = takeWhile is_digit r"
    then show ?thesis using py_float_digits [OF d] by simp
  next
    assume "\<exists>f. (\<forall>x\<in>set f. is_digit x) \<and> number_lexeme r = takeWhile is_digit r @ CHR ''.'' # f"
    then obtain f where f: "\<forall>x\<in>set f. is_digit x"
      and n: "number_lexeme r = takeWhile is_digit r @ CHR ''.'' # f" by blast
    show ?thesis using py_float_fraction [OF d f] n by simp
  qed
qed

lemma take_number_lexeme [simp]: "take (length (number_lexeme xs)) xs = number_lexeme xs"
  using number_lexeme_prefix [of xs] by (metis append_eq_conv_conj)

lemma scan_token_number:
  assumes "rest s = c # r" "is_digit c" "start s = current s"
  shows "scan_token s = Inr (add_token NUMBER (Some (PyFloat (decimal_float (number_lexeme (c # r)))))
      (s\<lparr>current := current s + length (number_lexeme (c # r))\<rparr>))"
proof -
  let ?s1 = "s\<lparr>current := Suc (current s)\<rparr>"
  let ?n = "length (number_lexeme r)"
  have v: "py_float (c # number_lexeme r) = Inr (decimal_float (c # number_lexeme r))"
    by (rule py_float_number_lexeme [OF assms(2)])
  have r1: "rest ?s1 = r" by (rule rest_Suc_Cons [OF assms(1)])
  have "slice (source s) (current s) (current s + Suc ?n) = take (Suc ?n) (rest s)"
    by (rule slice_rest)
  then have sl: "slice (source s) (current s) (Suc (current s + ?n)) = c # number_lexeme r"
    by (simp add: assms(1))
  have "scan_token s = number ?s1"
    by (rule scan_token_digit [OF assms(1,2)])
  also have "\<dots> = Inr (add_token NUMBER (Some (PyFloat (decimal_float (c # number_lexeme r))))
      (?s1\<lparr>current := current ?s1 + ?n\<rparr>))"
    unfolding number_eq Let_def r1 by (simp add: assms(3) sl v)
  finally show ?thesis
    by (simp add: number_lexeme_Cons [OF assms(2)])
qed

lemma string_take:
  "CHR 0x22 \<notin> set body \<Longrightarrow> takeWhile (\<lambda>c. c \<noteq> CHR 0x22) (body @ CHR 0x22 # r) = body"
  "CHR 0x22 \<notin> set body \<Longrightarrow> dropWhile (\<lambda>c. c \<noteq> CHR 0x22) (body @ CHR 0x22 # r) = CHR 0x22 # r"
  "CHR 0x22 \<notin> set body \<Longrightarrow> takeWhile (\<lambda>c. c \<noteq> CHR 0x22) body = body"
  "CHR 0x22 \<notin> set body \<Longrightarrow> dropWhile (\<lambda>c. c \<noteq> CHR 0x22) body = []"
  by (induction body) auto

lemma scan_token_string_closed:
  assumes "rest s = CHR 0x22 # body @ CHR 0x22 # r" "CHR 0x22 \<notin> set body"
    "start s = current s"
  shows "scan_token s = Inr (add_token STRING (Some (PyStr body))
      (s\<lparr>line := line s + newlines body, current := current s + (length body + 2)\<rparr>))"
proof -
  let ?s1 = "s\<lparr>current := Suc (current s)\<rparr>"
  have r1: "rest ?s1 = body @ CHR 0x22 # r" by (rule rest_Suc_Cons [OF assms(1)])
  have "slice (source ?s1) (current ?s1) (current ?s1 + length body) = take (length body) (rest ?s1)"
    by (rule slice_rest)
  then have sl: "slice (source s) (Suc (current s)) (Suc (current s + length body)) = body"
    by (simp add: r1)
  have "scan_token s = string ?s1"
    by (rule scan_token_quote [OF assms(1)])
  then show ?thesis
    unfolding string_eq Let_def r1 string_take(1,2) [OF assms(2)]
    by (simp add: assms(3) sl)
qed

lemma scan_token_string_open:
  assumes "rest s = CHR 0x22 # body" "CHR 0x22 \<notin> set body"
  shows "scan_token s = Inr
      (s\<lparr>current := current s + (length body + 1), line := line s + newlines body,
         errors := errors s @
           [''[line '' @ str_nat (line s + newlines body) @ ''] Error: Unterminated string.'']\<rparr>)"
proof -
  let ?s1 = "s\<lparr>current := Suc (current s)\<rparr>"
  have r1: "rest ?s1 = body" by (rule rest_Suc_Cons [OF assms(1)])
  have "scan_token s = string ?s1"
    by (rule scan_token_quote [OF assms(1)])
  then show ?thesis
    unfolding string_eq Let_def r1 string_take(3,4) [OF assms(2)]
    by simp
qed

lemma scan_token_identifier:
  assumes "rest s = c # r" "is_alpha c" "start s = current s"
  shows "scan_token s = Inr
      (add_token (identifier_type (c # takeWhile is_alpha_numeric r)) None
         (s\<lparr>current := current s + length (c # takeWhile is_alpha_numeric r)\<rparr>))"
proof -
  let ?s1 = "s\<lparr>current := Suc (current s)\<rparr>"
  let ?n = "length (takeWhile is_alpha_numeric r)"
  have r1: "rest ?s1 = r" by (rule rest_Suc_Cons [OF assms(1)])
  have "slice (source s) (current s) (current s + Suc ?n) = take (Suc ?n) (rest s)"
    by (rule slice_rest)
  then have sl: "slice (source s) (current s) (Suc (current s + ?n)) = c # takeWhile is_alpha_numeric r"
    by (simp add: assms(1))
  have "scan_token s = identifier ?s1"
    by (rule scan_token_alpha [OF assms(1,2)])
  then show ?thesis
    unfolding identifier_eq Let_def r1 by (simp add: assms(3) sl)
qed

subsection \<open>Every call of the dispatch is a step\<close>

text \<open>
  Called at a loop head on a source that is not exhausted, \<^verbatim>\<open>scan_token\<close> returns (it
  does not raise) and the states before and after are related by \<open>stepped\<close>.
\<close>

lemma add_token_fields [simp]:
  "source (add_token ty lit s) = source s"
  "start (add_token ty lit s) = start s"
  "current (add_token ty lit s) = current s"
  "line (add_token ty lit s) = line s"
  "errors (add_token ty lit s) = errors s"
  "tokens (add_token ty lit s) =
     tokens s @ [\<lparr>type = ty, lexeme = slice (source s) (start s) (current s),
       literal = lit, line = line s\<rparr>]"
  by (simp_all add: add_token_def)

lemma steppedI_skip:
  assumes "rest s = w @ r" "w \<noteq> []" "source s' = source s" "start s' = start s"
    "current s' = current s + length w" "line s' = line s + newlines w"
    "tokens s' = tokens s"
  shows "stepped s s'"
  unfolding stepped_def using assms by blast

lemma steppedI_add:
  assumes "rest s = w @ r" "w \<noteq> []" "start s = current s" "ty \<noteq> EOF"
    "ty \<noteq> STRING \<longrightarrow> newlines w = 0"
    "source s1 = source s" "start s1 = start s" "tokens s1 = tokens s"
    "current s1 = current s + length w" "line s1 = line s + newlines w"
  shows "stepped s (add_token ty lit s1)"
proof -
  have "slice (source s) (current s) (current s + length w) = w"
    using slice_rest [of s "length w"] assms(1) by simp
  then show ?thesis
    unfolding stepped_def using assms
    by (intro exI [of _ w] exI [of _ r]) simp
qed

lemma single_char_facts:
  assumes "single_char c = Some ty"
  shows "ty \<noteq> EOF" "ty \<noteq> STRING" "c \<noteq> CHR 0x0A"
  using assms unfolding single_char_Some by auto

lemma operator_facts:
  assumes "operator c = Some (two, one)"
  shows "two \<noteq> EOF" "two \<noteq> STRING" "one \<noteq> EOF" "one \<noteq> STRING" "c \<noteq> CHR 0x0A"
  using assms unfolding operator_Some by auto

lemma identifier_type_facts: "identifier_type t \<noteq> EOF" "identifier_type t \<noteq> STRING"
proof -
  have "identifier_type t \<notin> {EOF, STRING}"
  proof (cases "map_of reserved_words t")
    case None
    then show ?thesis by (simp add: identifier_type_def)
  next
    case (Some ty)
    then have "(t, ty) \<in> set reserved_words" by (rule map_of_SomeD)
    then have "ty \<notin> {EOF, STRING}" unfolding reserved_words_def by auto
    with Some show ?thesis by (simp add: identifier_type_def)
  qed
  then show "identifier_type t \<noteq> EOF" "identifier_type t \<noteq> STRING" by simp_all
qed

lemma newline_not_alnum [simp]:
  "\<not> is_alpha_numeric (CHR 0x0A)" "\<not> is_digit (CHR 0x0A)" "\<not> is_alpha (CHR 0x0A)"
  by (simp_all add: is_alpha_numeric_def is_alpha_def is_digit_def)

lemma scan_token_step:
  assumes cr: "rest s = c # r" and st: "start s = current s"
  shows "\<exists>s'. scan_token s = Inr s' \<and> stepped s s'"
proof -
  let ?s1 = "s\<lparr>current := Suc (current s)\<rparr>"
  have one: "stepped s (add_token ty lit ?s1)" if "ty \<noteq> EOF" "ty \<noteq> STRING" "c \<noteq> CHR 0x0A"
    for ty lit
    using that cr st by (intro steppedI_add [where w = "[c]" and r = r]) simp_all
  have skip1: "stepped s s'"
    if "source s' = source s" "start s' = start s" "current s' = Suc (current s)"
      "line s' = line s" "tokens s' = tokens s" "c \<noteq> CHR 0x0A" for s'
    using that cr by (intro steppedI_skip [where w = "[c]" and r = r]) simp_all
  consider
      (single) ty where "single_char c = Some ty"
    | (oper) two one where "operator c = Some (two, one)"
    | (slash) "c = CHR ''/''"
    | (white) "whitespace c"
    | (newline) "c = CHR 0x0A"
    | (quote) "c = CHR 0x22"
    | (digit) "is_digit c"
    | (alpha) "is_alpha c"
    | (other) "single_char c = None" "operator c = None" "c \<noteq> CHR ''/''" "\<not> whitespace c"
        "c \<noteq> CHR 0x0A" "c \<noteq> CHR 0x22" "\<not> is_digit c" "\<not> is_alpha c"
    by (cases "single_char c"; cases "operator c") auto
  then show ?thesis
  proof cases
    case single
    show ?thesis
      unfolding scan_token_single_char [OF cr single]
      using one single_char_facts [OF single] by simp
  next
    case oper
    note f = operator_facts [OF oper]
    show ?thesis
    proof (cases "\<exists>r'. r = CHR ''='' # r'")
      case True
      then obtain r' where r: "r = CHR ''='' # r'" by blast
      have "stepped s (add_token two None (s\<lparr>current := Suc (Suc (current s))\<rparr>))"
        using cr st f r
        by (intro steppedI_add [where w = "[c, CHR ''='']" and r = r']) simp_all
      then show ?thesis
        unfolding scan_token_operator [OF cr oper] by (simp add: r)
    next
      case False
      then show ?thesis
        unfolding scan_token_operator [OF cr oper]
        using one [of one None] f by (cases r) auto
    qed
  next
    case slash
    note cr' = cr [unfolded slash]
    show ?thesis
    proof (cases "\<exists>r'. r = CHR ''/'' # r'")
      case True
      then obtain r' where r: "r = CHR ''/'' # r'" by blast
      let ?w = "CHR ''/'' # CHR ''/'' # takeWhile (\<lambda>c. c \<noteq> CHR 0x0A) r'"
      have "rest s = ?w @ dropWhile (\<lambda>c. c \<noteq> CHR 0x0A) r'"
        by (simp add: cr' r)
      then have "stepped s (s\<lparr>current := Suc (Suc (current s)) +
          length (takeWhile (\<lambda>c. c \<noteq> CHR 0x0A) r')\<rparr>)"
        by (rule steppedI_skip) (simp_all add: newlines_takeWhile)
      then show ?thesis
        unfolding scan_token_slash [OF cr'] by (simp add: r)
    next
      case False
      then show ?thesis
        unfolding scan_token_slash [OF cr']
        using one [of SLASH None] slash by (cases r) auto
    qed
  next
    case white
    then have "c \<noteq> CHR 0x0A" by (auto simp: whitespace_def)
    then show ?thesis
      unfolding scan_token_whitespace [OF cr white] by (simp add: skip1)
  next
    case newline
    have "stepped s (s\<lparr>current := Suc (current s), line := line s + 1\<rparr>)"
      using cr newline
      by (intro steppedI_skip [where w = "[c]" and r = r]) simp_all
    then show ?thesis
      unfolding scan_token_newline [OF cr [unfolded newline]] by simp
  next
    case quote
    note cr' = cr [unfolded quote]
    show ?thesis
    proof (cases "CHR 0x22 \<in> set r")
      case True
      then obtain body r' where r: "r = body @ CHR 0x22 # r'" and b: "CHR 0x22 \<notin> set body"
        by (auto dest: split_list_first)
      have "stepped s (add_token STRING (Some (PyStr body))
          (s\<lparr>line := line s + newlines body, current := current s + (length body + 2)\<rparr>))"
        using cr' st r
        by (intro steppedI_add [where w = "CHR 0x22 # body @ [CHR 0x22]" and r = r'])
          simp_all
      then show ?thesis
        unfolding scan_token_string_closed [OF cr' [unfolded r] b st] by simp
    next
      case False
      have "rest s = (CHR 0x22 # r) @ []" using cr' by simp
      then have "stepped s (s\<lparr>current := current s + (length r + 1),
          line := line s + newlines r,
          errors := errors s @
            [''[line '' @ str_nat (line s + newlines r) @ ''] Error: Unterminated string.'']\<rparr>)"
        by (rule steppedI_skip) simp_all
      then show ?thesis
        unfolding scan_token_string_open [OF cr' False] by simp
    qed
  next
    case digit
    define v where "v = decimal_float (number_lexeme (c # r))"
    have sc: "scan_token s = Inr (add_token NUMBER (Some (PyFloat v))
        (s\<lparr>current := current s + length (number_lexeme (c # r))\<rparr>))"
      unfolding v_def by (rule scan_token_number [OF cr digit st])
    obtain r' where r': "c # r = number_lexeme (c # r) @ r'"
      using number_lexeme_prefix [of "c # r"] by blast
    have "c \<noteq> CHR 0x0A" using digit by auto
    then have "stepped s (add_token NUMBER (Some (PyFloat v))
        (s\<lparr>current := current s + length (number_lexeme (c # r))\<rparr>))"
      using st r' cr
      by (intro steppedI_add [where w = "number_lexeme (c # r)" and r = r'])
        (simp_all add: newlines_number_lexeme number_lexeme_Cons [OF digit])
    then show ?thesis unfolding sc by simp
  next
    case alpha
    have "c \<noteq> CHR 0x0A" using alpha by auto
    then have "stepped s (add_token (identifier_type (c # takeWhile is_alpha_numeric r)) None
        (s\<lparr>current := current s + length (c # takeWhile is_alpha_numeric r)\<rparr>))"
      using st cr
      by (intro steppedI_add [where w = "c # takeWhile is_alpha_numeric r"
            and r = "dropWhile is_alpha_numeric r"])
        (simp_all add: newlines_takeWhile identifier_type_facts)
    then show ?thesis
      unfolding scan_token_identifier [OF cr alpha st] by simp
  next
    case other
    show ?thesis
      unfolding scan_token_other [OF cr other]
      using other(5) by (simp add: skip1 error_def)
  qed
qed

section \<open>The main loop (src/main.py, lines 73-78)\<close>

text \<open>
  \<^verbatim>\<open>scan_tokens\<close> runs \<^verbatim>\<open>scan_token\<close> from \<^verbatim>\<open>start = current\<close> until the cursor is at the
  end of the source, appends the \<^verbatim>\<open>EOF\<close> token and returns the tokens and the diagnostics.
  The loop is \<open>scan_loop\<close>; it terminates because every step moves the cursor forward.
  \<open>scan\<close> is the way the repository calls the scanner: \<^verbatim>\<open>Scanner(source).scan_tokens()\<close>.
\<close>

lemma stepped_progress:
  assumes "stepped s s'"
  shows "source s' = source s" "current s < current s'" "current s' \<le> length (source s)"
proof -
  from assms obtain w r where w: "w \<noteq> []" "rest s = w @ r" "source s' = source s"
    "current s' = current s + length w"
    unfolding stepped_def by blast
  show "source s' = source s" by fact
  show "current s < current s'" using w by simp
  have "length (rest s) = length (source s) - current s" by (simp add: rest_def)
  moreover have "length w \<le> length (rest s)" "0 < length (rest s)" using w by simp_all
  ultimately show "current s' \<le> length (source s)" using w(4) by linarith
qed

function scan_loop :: "Scanner \<Rightarrow> py_error + Scanner" where
  "scan_loop s =
     (if \<not> is_at_end s then
        (case scan_token (s\<lparr>start := current s\<rparr>) of
           Inl e \<Rightarrow> Inl e
         | Inr s' \<Rightarrow> scan_loop s')
      else Inr s)"
  by pat_completeness auto
termination
proof (relation "measure (\<lambda>s. length (source s) - current s)")
  show "wf (measure (\<lambda>s. length (source s) - current s))" by simp
next
  fix s s' :: Scanner
  let ?s0 = "s\<lparr>start := current s\<rparr>"
  assume ne: "\<not> is_at_end s" and sc: "scan_token ?s0 = Inr s'"
  from ne obtain c r where "rest ?s0 = c # r"
    by (cases "rest s") (simp_all add: is_at_end_rest rest_def)
  then have "\<exists>s1. scan_token ?s0 = Inr s1 \<and> stepped ?s0 s1"
    by (rule scan_token_step) simp
  with sc have "stepped ?s0 s'" by simp
  from stepped_progress [OF this]
  show "(s', s) \<in> measure (\<lambda>s. length (source s) - current s)"
    by simp
qed

declare scan_loop.simps [simp del]

definition scan_tokens :: "Scanner \<Rightarrow> py_error + (Token list \<times> string list)" where
  "scan_tokens s =
     (case scan_loop s of
        Inl e \<Rightarrow> Inl e
      | Inr s' \<Rightarrow>
          (let s'' = s'\<lparr>tokens := tokens s' @
                 [\<lparr>type = EOF, lexeme = [], literal = None, line = line s'\<rparr>]\<rparr>
           in Inr (tokens s'', errors s'')))"

definition scan :: "string \<Rightarrow> py_error + (Token list \<times> string list)" where
  "scan src = scan_tokens (Scanner_init src)"

lemma scan_loop_invariant:
  assumes init: "P s"
    and step: "\<And>s s'. P s \<Longrightarrow> \<not> is_at_end s \<Longrightarrow> stepped (s\<lparr>start := current s\<rparr>) s' \<Longrightarrow> P s'"
  shows "\<exists>s'. scan_loop s = Inr s' \<and> P s' \<and> is_at_end s'"
  using init
proof (induction s rule: scan_loop.induct)
  case (1 s)
  show ?case
  proof (cases "is_at_end s")
    case True
    with "1.prems" show ?thesis by (subst scan_loop.simps) simp
  next
    case False
    let ?s0 = "s\<lparr>start := current s\<rparr>"
    from False obtain c r where "rest ?s0 = c # r"
      by (cases "rest s") (simp_all add: is_at_end_rest rest_def)
    then have "\<exists>s1. scan_token ?s0 = Inr s1 \<and> stepped ?s0 s1"
      by (rule scan_token_step) simp
    then obtain s1 where s1: "scan_token ?s0 = Inr s1" "stepped ?s0 s1" by blast
    have "P s1" by (rule step [OF "1.prems" False s1(2)])
    from "1.IH" [OF False s1(1) this] obtain s' where
      "scan_loop s1 = Inr s'" "P s'" "is_at_end s'" by blast
    then show ?thesis using False s1(1)
      by (subst scan_loop.simps) simp
  qed
qed

subsection \<open>Steps of the loop\<close>

lemma stepped_loop:
  assumes "stepped (s\<lparr>start := current s\<rparr>) s'"
  shows "\<exists>w r. w \<noteq> [] \<and> rest s = w @ r \<and> source s' = source s \<and>
    current s' = current s + length w \<and> line s' = line s + newlines w \<and>
    (tokens s' = tokens s \<or>
     (\<exists>ty lit. ty \<noteq> EOF \<and> (ty \<noteq> STRING \<longrightarrow> newlines w = 0) \<and>
        tokens s' = tokens s @ [\<lparr>type = ty, lexeme = w, literal = lit, line = line s'\<rparr>]))"
proof -
  let ?s0 = "s\<lparr>start := current s\<rparr>"
  have f: "rest ?s0 = rest s" "source ?s0 = source s" "current ?s0 = current s"
    "line ?s0 = line s" "tokens ?s0 = tokens s"
    by (simp_all add: rest_def)
  from assms show ?thesis
    unfolding stepped_def f by blast
qed

lemma take_rest:
  assumes "rest s = w @ r"
  shows "take (current s + length w) (source s) = take (current s) (source s) @ w"
proof -
  have "take (current s + length w) (source s) =
      take (current s) (source s) @ take (length w) (rest s)"
    unfolding rest_def by (rule take_add)
  then show ?thesis using assms by simp
qed

lemma rest_bound:
  assumes "rest s = w @ r" "w \<noteq> []"
  shows "current s + length w \<le> length (source s)"
proof -
  have "length (rest s) = length (source s) - current s" by (simp add: rest_def)
  moreover have "length w \<le> length (rest s)" "0 < length (rest s)" using assms by simp_all
  ultimately show ?thesis by linarith
qed

lemma rest_start [simp]: "rest (s\<lparr>start := n\<rparr>) = rest s"
  by (simp add: rest_def)

lemma rest_length: "rest s = w \<Longrightarrow> w \<noteq> [] \<Longrightarrow> current s + length w = length (source s)"
  by (auto simp: rest_def)

lemma scan_loop_at_end: "is_at_end s \<Longrightarrow> scan_loop s = Inr s"
  by (subst scan_loop.simps) simp

lemma scan_loop_step:
  "rest s = c # r \<Longrightarrow> scan_token (s\<lparr>start := current s\<rparr>) = Inr s' \<Longrightarrow>
   scan_loop s = scan_loop s'"
  by (subst scan_loop.simps) (simp add: is_at_end_rest)

lemma slice_head:
  "rest s = w @ r \<Longrightarrow> slice (source s) (current s) (current s + length w) = w"
  using slice_rest [of s "length w"] by simp

subsection \<open>Whole scans and number literals\<close>

lemma scan_tokens_at_end:
  "is_at_end s \<Longrightarrow>
   scan_tokens s =
     Inr (tokens s @ [\<lparr>type = EOF, lexeme = [], literal = None, line = line s\<rparr>], errors s)"
  by (simp add: scan_tokens_def scan_loop_at_end)

lemma scan_tokens_step:
  "rest s = c # r \<Longrightarrow> scan_token (s\<lparr>start := current s\<rparr>) = Inr s' \<Longrightarrow>
   scan_tokens s = scan_tokens s'"
  by (simp add: scan_tokens_def scan_loop_step)

lemma scan_token_number_state:
  assumes "rest s = c # r" and "is_digit c"
  shows "scan_token (s\<lparr>start := current s\<rparr>) =
        Inr (s\<lparr>start := current s, current := current s + length (number_lexeme (c # r)),
              tokens := tokens s @
                [\<lparr>type = NUMBER, lexeme = number_lexeme (c # r),
                  literal = Some (PyFloat (decimal_float (number_lexeme (c # r)))),
                  line = line s\<rparr>]\<rparr>)"
proof -
  let ?s0 = "s\<lparr>start := current s\<rparr>"
  let ?w = "number_lexeme (c # r)"
  have r0: "rest ?s0 = c # r" using assms(1) by simp
  obtain r' where "c # r = ?w @ r'"
    using number_lexeme_prefix [of "c # r"] by blast
  then have "rest s = ?w @ r'" using assms(1) by simp
  from slice_head [OF this]
  have sl: "slice (source s) (current s) (current s + length ?w) = ?w" .
  show ?thesis
    unfolding scan_token_number [OF r0 assms(2), simplified]
    by (simp add: add_token_def sl)
qed

lemma decimal_float_examples:
  "decimal_float ''123.45'' = Finite (8687021468732621 / 70368744177664)"
  "decimal_float ''123'' = Finite 123"
  "decimal_float ''12.5'' = Finite (25 / 2)"
  "decimal_float ''9007199254740993'' = Finite 9007199254740992"
  by (simp_all add: decimal_float_def digits_val_def digit_val_def is_digit_def
      round_binary64_def floor_log2_def pow2_def bit_length.simps Let_def)

lemma number_lexeme_examples:
  "number_lexeme ''123.45'' = ''123.45''"
  "number_lexeme ''123.'' = ''123''"
  "number_lexeme ''12.5.x'' = ''12.5''"
  "number_lexeme ''9007199254740993'' = ''9007199254740993''"
  by code_simp+

subsection \<open>Lines of the source\<close>



section \<open>Properties of the scanner\<close>

text \<open>
  C2. For every source text, \<^verbatim>\<open>scan_tokens\<close> terminates and returns the pair of the tokens
  and the diagnostics; it raises no exception, and no error ends the pass early: the loop
  stops only when the cursor has reached the end of the source. (Termination is part of
  the definition of \<open>scan_loop\<close>; here the loop is shown to return \<open>Inr\<close>, never an error.)
\<close>

theorem scan_returns:
  "\<exists>s'. scan_loop (Scanner_init src) = Inr s' \<and> source s' = src \<and> current s' = length src \<and>
     scan src = Inr (tokens s' @ [\<lparr>type = EOF, lexeme = [], literal = None, line = line s'\<rparr>],
                     errors s')"
proof -
  let ?P = "\<lambda>s. source s = src \<and> current s \<le> length src"
  have "\<exists>s'. scan_loop (Scanner_init src) = Inr s' \<and> ?P s' \<and> is_at_end s'"
  proof (rule scan_loop_invariant)
    show "?P (Scanner_init src)" by (simp add: Scanner_init_def)
  next
    fix s s' assume "?P s" "stepped (s\<lparr>start := current s\<rparr>) s'"
    then show "?P s'" using stepped_progress [of "s\<lparr>start := current s\<rparr>" s'] by simp
  qed
  then obtain s' where s': "scan_loop (Scanner_init src) = Inr s'" "source s' = src"
    "current s' \<le> length src" "is_at_end s'" by blast
  then have "current s' = length src" by (simp add: is_at_end_def)
  with s' show ?thesis
    by (intro exI [of _ s']) (simp add: scan_def scan_tokens_def)
qed

theorem scan_returns_witness:
  "\<exists>s'. scan_loop (Scanner_init ''1 @'') = Inr s' \<and> source s' = ''1 @'' \<and>
     current s' = length ''1 @'' \<and>
     scan ''1 @'' =
       Inr (tokens s' @ [\<lparr>type = EOF, lexeme = [], literal = None, line = line s'\<rparr>], errors s')"
  using scan_returns [of "''1 @''"] .

text \<open>
  C3. For every source text the tokens returned by \<open>scan\<close> end with one \<^verbatim>\<open>EOF\<close> token,
  with an empty lexeme, no literal and the final value of the line counter as its line
  (which is one more than the number of newlines of the source); no token before it is an
  \<^verbatim>\<open>EOF\<close> token. The empty source gives this \<^verbatim>\<open>EOF\<close> token alone, on line 1, and no
  diagnostic.
\<close>

theorem scan_ends_with_EOF:
  "(\<exists>s'. scan_loop (Scanner_init src) = Inr s' \<and>
      scan src = Inr (tokens s' @ [\<lparr>type = EOF, lexeme = [], literal = None, line = line s'\<rparr>],
                      errors s') \<and>
      (\<forall>t \<in> set (tokens s'). type t \<noteq> EOF) \<and>
      line s' = 1 + newlines src) \<and>
   scan [] = Inr ([\<lparr>type = EOF, lexeme = [], literal = None, line = 1\<rparr>], [])"
proof
  let ?P = "\<lambda>s. source s = src \<and> current s \<le> length src \<and>
    line s = 1 + newlines (take (current s) src) \<and> (\<forall>t \<in> set (tokens s). type t \<noteq> EOF)"
  have "\<exists>s'. scan_loop (Scanner_init src) = Inr s' \<and> ?P s' \<and> is_at_end s'"
  proof (rule scan_loop_invariant)
    show "?P (Scanner_init src)" by (simp add: Scanner_init_def)
  next
    fix s s' assume P: "?P s" and "stepped (s\<lparr>start := current s\<rparr>) s'"
    from stepped_loop [OF this(2)] obtain w r where w: "w \<noteq> []" "rest s = w @ r"
      "source s' = source s" "current s' = current s + length w"
      "line s' = line s + newlines w"
      "tokens s' = tokens s \<or>
       (\<exists>ty lit. ty \<noteq> EOF \<and> (ty \<noteq> STRING \<longrightarrow> newlines w = 0) \<and>
          tokens s' = tokens s @ [\<lparr>type = ty, lexeme = w, literal = lit, line = line s'\<rparr>])"
      by blast
    have "take (current s') src = take (current s) src @ w"
      using take_rest [OF w(2)] w(4) P by simp
    moreover have "current s' \<le> length src"
      using rest_bound [OF w(2,1)] w(4) P by simp
    moreover have "\<forall>t \<in> set (tokens s'). type t \<noteq> EOF"
      using w(6) P by auto
    ultimately show "?P s'" using w(3,5) P by simp
  qed
  then obtain s' where s': "scan_loop (Scanner_init src) = Inr s'" "?P s'" "is_at_end s'"
    by blast
  then have "current s' = length src" by (simp add: is_at_end_def)
  with s' show "\<exists>s'. scan_loop (Scanner_init src) = Inr s' \<and>
      scan src = Inr (tokens s' @ [\<lparr>type = EOF, lexeme = [], literal = None, line = line s'\<rparr>],
                      errors s') \<and>
      (\<forall>t \<in> set (tokens s'). type t \<noteq> EOF) \<and>
      line s' = 1 + newlines src"
    by (intro exI [of _ s']) (simp add: scan_def scan_tokens_def)
next
  show "scan [] = Inr ([\<lparr>type = EOF, lexeme = [], literal = None, line = 1\<rparr>], [])"
    by code_simp
qed

theorem scan_ends_with_EOF_witness:
  "scan [CHR ''('', CHR 0x0A, CHR '')''] =
     Inr ([\<lparr>type = LEFT_PAREN, lexeme = ''('', literal = None, line = 1\<rparr>,
           \<lparr>type = RIGHT_PAREN, lexeme = '')'', literal = None, line = 2\<rparr>,
           \<lparr>type = EOF, lexeme = [], literal = None, line = 2\<rparr>], []) \<and>
   type \<lparr>type = LEFT_PAREN, lexeme = ''('', literal = None, line = 1\<rparr> \<noteq> EOF \<and>
   type \<lparr>type = RIGHT_PAREN, lexeme = '')'', literal = None, line = 2\<rparr> \<noteq> EOF \<and>
   2 = 1 + newlines [CHR ''('', CHR 0x0A, CHR '')'']"
proof -
  let ?src = "[CHR ''('', CHR 0x0A, CHR '')'']"
  have run: "scan_loop (Scanner_init ?src) =
    Inr \<lparr>source = ?src,
         tokens = [\<lparr>type = LEFT_PAREN, lexeme = ''('', literal = None, line = 1\<rparr>,
           \<lparr>type = RIGHT_PAREN, lexeme = '')'', literal = None, line = 2\<rparr>],
         start = 2, current = 3, line = 2, errors = []\<rparr>"
    by code_simp
  from scan_ends_with_EOF [of ?src] show ?thesis
    unfolding run by auto
qed

text \<open>
  C9. In the token sequence returned by \<open>scan\<close> the line numbers never decrease: a token
  that precedes another has a line number less than or equal to the other's.
\<close>

theorem lines_non_decreasing:
  assumes "scan src = Inr (toks, diags)"
  shows "sorted (map Token.line toks) \<and>
    (\<forall>i j. i < j \<and> j < length toks \<longrightarrow> Token.line (toks ! i) \<le> Token.line (toks ! j))"
proof -
  let ?P = "\<lambda>s. sorted (map Token.line (tokens s)) \<and> (\<forall>t \<in> set (tokens s). Token.line t \<le> line s)"
  have "\<exists>s'. scan_loop (Scanner_init src) = Inr s' \<and> ?P s' \<and> is_at_end s'"
  proof (rule scan_loop_invariant)
    show "?P (Scanner_init src)" by (simp add: Scanner_init_def)
  next
    fix s s' assume P: "?P s" and "stepped (s\<lparr>start := current s\<rparr>) s'"
    from stepped_loop [OF this(2)] obtain w where w:
      "line s' = line s + newlines w"
      "tokens s' = tokens s \<or>
       (\<exists>ty lit. tokens s' = tokens s @ [\<lparr>type = ty, lexeme = w, literal = lit, line = line s'\<rparr>])"
      by blast
    have le: "Token.line t \<le> line s'" if "t \<in> set (tokens s)" for t
    proof -
      have "Token.line t \<le> line s" using P that by blast
      then show ?thesis using w(1) by simp
    qed
    from w(2) show "?P s'"
    proof
      assume "tokens s' = tokens s"
      then show ?thesis using P le by simp
    next
      assume "\<exists>ty lit. tokens s' = tokens s @ [\<lparr>type = ty, lexeme = w, literal = lit, line = line s'\<rparr>]"
      then show ?thesis using P le by (auto simp: sorted_append)
    qed
  qed
  then obtain s' where s': "scan_loop (Scanner_init src) = Inr s'" "?P s'" by blast
  with assms have "toks = tokens s' @ [\<lparr>type = EOF, lexeme = [], literal = None, line = line s'\<rparr>]"
    by (simp add: scan_def scan_tokens_def)
  with s'(2) have "sorted (map Token.line toks)"
    by (simp add: sorted_append)
  then show ?thesis
    by (auto simp: sorted_iff_nth_mono)
qed

theorem lines_non_decreasing_witness:
  "scan [CHR ''('', CHR 0x0A, CHR ''x'', CHR 0x0A, CHR '')''] =
     Inr ([\<lparr>type = LEFT_PAREN, lexeme = ''('', literal = None, line = 1\<rparr>,
           \<lparr>type = IDENTIFIER, lexeme = ''x'', literal = None, line = 2\<rparr>,
           \<lparr>type = RIGHT_PAREN, lexeme = '')'', literal = None, line = 3\<rparr>,
           \<lparr>type = EOF, lexeme = [], literal = None, line = 3\<rparr>], []) \<and>
   sorted [1, 2, 3, 3 :: nat]"
proof -
  have ev: "scan [CHR ''('', CHR 0x0A, CHR ''x'', CHR 0x0A, CHR '')''] =
     Inr ([\<lparr>type = LEFT_PAREN, lexeme = ''('', literal = None, line = 1\<rparr>,
           \<lparr>type = IDENTIFIER, lexeme = ''x'', literal = None, line = 2\<rparr>,
           \<lparr>type = RIGHT_PAREN, lexeme = '')'', literal = None, line = 3\<rparr>,
           \<lparr>type = EOF, lexeme = [], literal = None, line = 3\<rparr>], [])"
    by code_simp
  from lines_non_decreasing [OF ev] ev show ?thesis by simp
qed

text \<open>
  C4. Let \<open>s\<close> be the scanner at the head of the main loop, with the remaining source a
  double quote followed by a text \<open>body\<close> that holds no double quote (the source ends inside
  the string literal). Then the scan from \<open>s\<close> adds no token but \<^verbatim>\<open>EOF\<close> and appends the one
  diagnostic \<^verbatim>\<open>[line N] Error: Unterminated string.\<close>, where \<open>N\<close> is the value of the line
  counter at the end of the source. The source \<^verbatim>\<open>"abc\<close> gives the \<^verbatim>\<open>EOF\<close> token alone and
  the diagnostic for line 1.
\<close>

theorem unterminated_string:
  assumes "rest s = CHR 0x22 # body" "CHR 0x22 \<notin> set body"
  shows "scan_tokens s =
      Inr (tokens s @
             [\<lparr>type = EOF, lexeme = [], literal = None, line = line s + newlines body\<rparr>],
           errors s @
             [''[line '' @ str_nat (line s + newlines body) @ ''] Error: Unterminated string.''])
    \<and> scan (CHR 0x22 # ''abc'') =
      Inr ([\<lparr>type = EOF, lexeme = [], literal = None, line = 1\<rparr>],
           [''[line 1] Error: Unterminated string.''])"
proof
  let ?s0 = "s\<lparr>start := current s\<rparr>"
  let ?s1 = "?s0\<lparr>current := current ?s0 + (length body + 1),
      line := line ?s0 + newlines body,
      errors := errors ?s0 @
        [''[line '' @ str_nat (line ?s0 + newlines body) @ ''] Error: Unterminated string.'']\<rparr>"
  have r0: "rest ?s0 = CHR 0x22 # body" using assms(1) by simp
  have tok: "scan_token ?s0 = Inr ?s1"
    by (rule scan_token_string_open [OF r0 assms(2)])
  have "current s + length (CHR 0x22 # body) = length (source s)"
    using assms(1) by (intro rest_length) simp_all
  then have "is_at_end ?s1" by (simp add: is_at_end_def)
  then have "scan_loop ?s1 = Inr ?s1" by (rule scan_loop_at_end)
  then have "scan_loop s = Inr ?s1"
    using scan_loop_step [OF assms(1) tok] by simp
  then show "scan_tokens s =
      Inr (tokens s @
             [\<lparr>type = EOF, lexeme = [], literal = None, line = line s + newlines body\<rparr>],
           errors s @
             [''[line '' @ str_nat (line s + newlines body) @ ''] Error: Unterminated string.''])"
    by (simp add: scan_tokens_def)
next
  show "scan (CHR 0x22 # ''abc'') =
      Inr ([\<lparr>type = EOF, lexeme = [], literal = None, line = 1\<rparr>],
           [''[line 1] Error: Unterminated string.''])"
    by code_simp
qed

theorem unterminated_string_witness:
  "scan (''x = '' @ [CHR 0x22, CHR ''a'', CHR 0x0A, CHR ''b'']) =
     Inr ([\<lparr>type = IDENTIFIER, lexeme = ''x'', literal = None, line = 1\<rparr>,
           \<lparr>type = EQUAL, lexeme = ''='', literal = None, line = 1\<rparr>,
           \<lparr>type = EOF, lexeme = [], literal = None, line = 2\<rparr>],
          [''[line 2] Error: Unterminated string.''])"
proof -
  let ?src = "''x = '' @ [CHR 0x22, CHR ''a'', CHR 0x0A, CHR ''b'']"
  let ?s = "\<lparr>source = ?src,
      tokens = [\<lparr>type = IDENTIFIER, lexeme = ''x'', literal = None, line = 1\<rparr>,
                \<lparr>type = EQUAL, lexeme = ''='', literal = None, line = 1\<rparr>],
      start = 3, current = 4, line = 1, errors = []\<rparr>"
  have r: "rest ?s = CHR 0x22 # [CHR ''a'', CHR 0x0A, CHR ''b'']"
    by (simp add: rest_def)
  have q: "CHR 0x22 \<notin> set [CHR ''a'', CHR 0x0A, CHR ''b'']" by simp
  have head: "scan_loop (Scanner_init ?src) = scan_loop ?s" by code_simp
  have sc: "scan ?src = scan_tokens ?s"
    by (simp only: scan_def scan_tokens_def head)
  have nl: "line ?s + newlines [CHR ''a'', CHR 0x0A, CHR ''b''] = 2" by simp
  have str: "str_nat 2 = ''2''" by code_simp
  have "scan_tokens ?s =
      Inr (tokens ?s @
             [\<lparr>type = EOF, lexeme = [], literal = None,
               line = line ?s + newlines [CHR ''a'', CHR 0x0A, CHR ''b'']\<rparr>],
           errors ?s @
             [''[line '' @ str_nat (line ?s + newlines [CHR ''a'', CHR 0x0A, CHR ''b'']) @
              ''] Error: Unterminated string.''])"
    using unterminated_string [OF r q] by (rule conjunct1)
  then show ?thesis
    unfolding sc nl str by simp
qed

text \<open>
  C5. Let \<open>s\<close> be the scanner at the head of the main loop and \<open>c\<close> the next character of
  the source. When \<open>c\<close> matches no rule of the dispatch (it is no punctuation or operator
  character, no slash, blank, carriage return, tab, newline or double quote, no ASCII digit,
  no ASCII letter and no underscore), \<^verbatim>\<open>scan_token\<close> appends the diagnostic
  \<^verbatim>\<open>[line N] Error: Unexpected character: c\<close> with the current line \<open>N\<close>, adds no token, moves
  the cursor by one, and the loop goes on from the next character. The source \<^verbatim>\<open>@\<close> gives
  no token but \<^verbatim>\<open>EOF\<close>, and in \<^verbatim>\<open>@+\<close> the \<^verbatim>\<open>PLUS\<close> after the error is scanned.
\<close>

theorem unexpected_character:
  assumes "rest s = c # r"
    and "c \<notin> set ''(){}*.,+-;!=<>/ ''"
    and "c \<notin> {CHR 0x0D, CHR 0x09, CHR 0x0A, CHR 0x22}"
    and "\<not> is_digit c" and "\<not> is_alpha c"
  shows "scan_token (s\<lparr>start := current s\<rparr>) =
      Inr (s\<lparr>start := current s, current := Suc (current s),
            errors := errors s @
              [''[line '' @ str_nat (line s) @ ''] Error: Unexpected character: '' @ [c]]\<rparr>)
    \<and> scan_loop s =
      scan_loop (s\<lparr>start := current s, current := Suc (current s),
            errors := errors s @
              [''[line '' @ str_nat (line s) @ ''] Error: Unexpected character: '' @ [c]]\<rparr>)
    \<and> scan ''@'' =
      Inr ([\<lparr>type = EOF, lexeme = [], literal = None, line = 1\<rparr>],
           [''[line 1] Error: Unexpected character: @''])
    \<and> scan ''@+'' =
      Inr ([\<lparr>type = PLUS, lexeme = ''+'', literal = None, line = 1\<rparr>,
            \<lparr>type = EOF, lexeme = [], literal = None, line = 1\<rparr>],
           [''[line 1] Error: Unexpected character: @''])"
proof -
  let ?s0 = "s\<lparr>start := current s\<rparr>"
  have r0: "rest ?s0 = c # r" using assms(1) by simp
  have cls: "single_char c = None" "operator c = None" "c \<noteq> CHR ''/''" "\<not> whitespace c"
    "c \<noteq> CHR 0x0A" "c \<noteq> CHR 0x22"
    using assms(2,3) by (simp_all add: single_char_None operator_None whitespace_def)
  have tok: "scan_token ?s0 =
      Inr (s\<lparr>start := current s, current := Suc (current s),
            errors := errors s @
              [''[line '' @ str_nat (line s) @ ''] Error: Unexpected character: '' @ [c]]\<rparr>)"
    unfolding scan_token_other [OF r0 cls assms(4,5)] by (simp add: error_def)
  moreover note scan_loop_step [OF assms(1) tok]
  moreover have "scan ''@'' =
      Inr ([\<lparr>type = EOF, lexeme = [], literal = None, line = 1\<rparr>],
           [''[line 1] Error: Unexpected character: @''])"
    by code_simp
  moreover have "scan ''@+'' =
      Inr ([\<lparr>type = PLUS, lexeme = ''+'', literal = None, line = 1\<rparr>,
            \<lparr>type = EOF, lexeme = [], literal = None, line = 1\<rparr>],
           [''[line 1] Error: Unexpected character: @''])"
    by code_simp
  ultimately show ?thesis by blast
qed

theorem unexpected_character_witness:
  "scan_token (Scanner_init ''@+'') =
     Inr \<lparr>source = ''@+'', tokens = [], start = 0, current = 1, line = 1,
          errors = [''[line 1] Error: Unexpected character: @'']\<rparr>"
proof -
  let ?s = "Scanner_init ''@+''"
  have h1: "rest ?s = CHR ''@'' # ''+''" by (simp add: rest_def Scanner_init_def)
  have h2: "CHR ''@'' \<notin> set ''(){}*.,+-;!=<>/ ''" by simp
  have h3: "CHR ''@'' \<notin> {CHR 0x0D, CHR 0x09, CHR 0x0A, CHR 0x22}" by simp
  have h4: "\<not> is_digit (CHR ''@'')" by (simp add: is_digit_def)
  have h5: "\<not> is_alpha (CHR ''@'')" by (simp add: is_alpha_def)
  have str: "str_nat (Suc 0) = ''1''" by code_simp
  have "scan_token (?s\<lparr>start := current ?s\<rparr>) =
      Inr (?s\<lparr>start := current ?s, current := Suc (current ?s),
            errors := errors ?s @
              [''[line '' @ str_nat (line ?s) @ ''] Error: Unexpected character: '' @ [CHR ''@'']]\<rparr>)"
    using unexpected_character [OF h1 h2 h3 h4 h5] by (rule conjunct1)
  then show ?thesis by (simp add: Scanner_init_def str)
qed

text \<open>
  C6. Let \<open>s\<close> be the scanner at the head of the main loop and the next character a digit.
  Then \<^verbatim>\<open>scan_token\<close> consumes \<open>number_lexeme\<close> of the remaining source (the longest run of
  digits, and a dot with the digits after it only when the dot is directly followed by a
  digit), \<^verbatim>\<open>float\<close> does not raise on that text, and one \<^verbatim>\<open>NUMBER\<close> token is added whose
  lexeme is that text and whose literal is its floating-point value: the binary64 value
  nearest to the decimal numeral. The source \<^verbatim>\<open>123.45\<close> gives one \<^verbatim>\<open>NUMBER\<close> whose literal is
  the float 123.45 (the binary64 value nearest to 12345/100), and \<^verbatim>\<open>123.\<close> gives \<^verbatim>\<open>NUMBER\<close>
  123.0 followed by \<^verbatim>\<open>DOT\<close>. The value is rounded as \<^verbatim>\<open>float\<close> rounds it:
  \<^verbatim>\<open>9007199254740993\<close> gives the float 9007199254740992.0.
\<close>

theorem number_literal:
  assumes "rest s = c # r" and "is_digit c"
  shows "py_float (number_lexeme (c # r)) = Inr (decimal_float (number_lexeme (c # r)))
    \<and> scan_token (s\<lparr>start := current s\<rparr>) =
        Inr (s\<lparr>start := current s, current := current s + length (number_lexeme (c # r)),
              tokens := tokens s @
                [\<lparr>type = NUMBER, lexeme = number_lexeme (c # r),
                  literal = Some (PyFloat (decimal_float (number_lexeme (c # r)))),
                  line = line s\<rparr>]\<rparr>)
    \<and> scan ''123.45'' =
      Inr ([\<lparr>type = NUMBER, lexeme = ''123.45'',
             literal = Some (PyFloat (Finite (8687021468732621 / 70368744177664))), line = 1\<rparr>,
            \<lparr>type = EOF, lexeme = [], literal = None, line = 1\<rparr>], [])
    \<and> round_binary64 12345 100 = Finite (8687021468732621 / 70368744177664)
    \<and> scan ''123.'' =
      Inr ([\<lparr>type = NUMBER, lexeme = ''123'', literal = Some (PyFloat (Finite 123)), line = 1\<rparr>,
            \<lparr>type = DOT, lexeme = ''.'', literal = None, line = 1\<rparr>,
            \<lparr>type = EOF, lexeme = [], literal = None, line = 1\<rparr>], [])
    \<and> scan ''9007199254740993'' =
      Inr ([\<lparr>type = NUMBER, lexeme = ''9007199254740993'',
             literal = Some (PyFloat (Finite 9007199254740992)), line = 1\<rparr>,
            \<lparr>type = EOF, lexeme = [], literal = None, line = 1\<rparr>], [])"
proof -
  have dig: "is_digit (CHR ''1'')" "is_digit (CHR ''9'')" by (simp_all add: is_digit_def)
  have general: "py_float (number_lexeme (c # r)) = Inr (decimal_float (number_lexeme (c # r)))"
    using py_float_number_lexeme [OF assms(2), of r]
    by (simp add: number_lexeme_Cons [OF assms(2)])
  have ex1: "scan ''123.45'' =
      Inr ([\<lparr>type = NUMBER, lexeme = ''123.45'',
             literal = Some (PyFloat (Finite (8687021468732621 / 70368744177664))), line = 1\<rparr>,
            \<lparr>type = EOF, lexeme = [], literal = None, line = 1\<rparr>], [])"
  proof -
    let ?s = "Scanner_init ''123.45''"
    have r: "rest ?s = CHR ''1'' # ''23.45''" by (simp add: rest_def Scanner_init_def)
    note tok = scan_token_number_state [OF r dig(1),
        unfolded number_lexeme_examples decimal_float_examples]
    show ?thesis
      unfolding scan_def scan_tokens_step [OF r tok]
      by (subst scan_tokens_at_end) (simp_all add: is_at_end_def Scanner_init_def)
  qed
  have ex2: "scan ''9007199254740993'' =
      Inr ([\<lparr>type = NUMBER, lexeme = ''9007199254740993'',
             literal = Some (PyFloat (Finite 9007199254740992)), line = 1\<rparr>,
            \<lparr>type = EOF, lexeme = [], literal = None, line = 1\<rparr>], [])"
  proof -
    let ?s = "Scanner_init ''9007199254740993''"
    have r: "rest ?s = CHR ''9'' # ''007199254740993''" by (simp add: rest_def Scanner_init_def)
    note tok = scan_token_number_state [OF r dig(2),
        unfolded number_lexeme_examples decimal_float_examples]
    show ?thesis
      unfolding scan_def scan_tokens_step [OF r tok]
      by (subst scan_tokens_at_end) (simp_all add: is_at_end_def Scanner_init_def)
  qed
  have ex3: "scan ''123.'' =
      Inr ([\<lparr>type = NUMBER, lexeme = ''123'', literal = Some (PyFloat (Finite 123)), line = 1\<rparr>,
            \<lparr>type = DOT, lexeme = ''.'', literal = None, line = 1\<rparr>,
            \<lparr>type = EOF, lexeme = [], literal = None, line = 1\<rparr>], [])"
  proof -
    let ?s = "Scanner_init ''123.''"
    let ?s1 = "?s\<lparr>start := current ?s, current := current ?s + length ''123'',
              tokens := tokens ?s @
                [\<lparr>type = NUMBER, lexeme = ''123'',
                  literal = Some (PyFloat (Finite 123)), line = line ?s\<rparr>]\<rparr>"
    have r: "rest ?s = CHR ''1'' # ''23.''" by (simp add: rest_def Scanner_init_def)
    note tok = scan_token_number_state [OF r dig(1),
        unfolded number_lexeme_examples decimal_float_examples]
    have r1: "rest ?s1 = CHR ''.'' # []" by (simp add: rest_def Scanner_init_def)
    have dot: "single_char (CHR ''.'') = Some DOT" by (simp add: single_char_def)
    have r1': "rest (?s1\<lparr>start := current ?s1\<rparr>) = CHR ''.'' # []"
      by (simp add: rest_def Scanner_init_def)
    note tok1 = scan_token_single_char [OF r1' dot]
    show ?thesis
      unfolding scan_def scan_tokens_step [OF r tok] scan_tokens_step [OF r1 tok1]
      by (subst scan_tokens_at_end)
        (simp_all add: is_at_end_def Scanner_init_def add_token_def slice_def)
  qed
  have "round_binary64 12345 100 = Finite (8687021468732621 / 70368744177664)"
    by (simp add: round_binary64_def floor_log2_def pow2_def bit_length.simps Let_def)
  with general scan_token_number_state [OF assms] ex1 ex2 ex3 show ?thesis by blast
qed

theorem number_literal_witness:
  "py_float ''12.5'' = Inr (Finite (25 / 2)) \<and>
   scan_token (Scanner_init ''12.5.x'') =
     Inr \<lparr>source = ''12.5.x'',
          tokens = [\<lparr>type = NUMBER, lexeme = ''12.5'', literal = Some (PyFloat (Finite (25 / 2))),
                     line = 1\<rparr>],
          start = 0, current = 4, line = 1, errors = []\<rparr>"
proof -
  let ?s = "Scanner_init ''12.5.x''"
  have h1: "rest ?s = CHR ''1'' # ''2.5.x''" by (simp add: rest_def Scanner_init_def)
  have h2: "is_digit (CHR ''1'')" by (simp add: is_digit_def)
  note th = number_literal [OF h1 h2, unfolded number_lexeme_examples decimal_float_examples]
  from th have "py_float ''12.5'' = Inr (Finite (25 / 2))" by (rule conjunct1)
  moreover from th have "scan_token (?s\<lparr>start := current ?s\<rparr>) =
        Inr (?s\<lparr>start := current ?s, current := current ?s + length ''12.5'',
              tokens := tokens ?s @
                [\<lparr>type = NUMBER, lexeme = ''12.5'',
                  literal = Some (PyFloat (Finite (25 / 2))), line = line ?s\<rparr>]\<rparr>)"
    by (elim conjE)
  ultimately show ?thesis by (simp add: Scanner_init_def)
qed

text \<open>
  C7. Let \<open>s\<close> be the scanner at the head of the main loop, with the remaining source a
  double quote, a text \<open>body\<close> without double quote, and a double quote. Then \<^verbatim>\<open>scan_token\<close>
  adds one \<^verbatim>\<open>STRING\<close> token whose literal is exactly \<open>body\<close>, and adds the number of newlines
  of \<open>body\<close> to the line counter. Nothing is escaped: \<open>body\<close> may hold and may end with a
  backslash, as in the source \<^verbatim>\<open>"a\"\<close>, whose literal is \<^verbatim>\<open>a\\<close>.
\<close>

theorem string_literal:
  assumes "rest s = CHR 0x22 # body @ CHR 0x22 # r" and "CHR 0x22 \<notin> set body"
  shows "scan_token (s\<lparr>start := current s\<rparr>) =
      Inr (s\<lparr>start := current s, current := current s + (length body + 2),
            line := line s + newlines body,
            tokens := tokens s @
              [\<lparr>type = STRING, lexeme = CHR 0x22 # body @ [CHR 0x22],
                literal = Some (PyStr body), line = line s + newlines body\<rparr>]\<rparr>)
    \<and> scan [CHR 0x22, CHR ''a'', CHR 0x5C, CHR 0x22] =
      Inr ([\<lparr>type = STRING, lexeme = [CHR 0x22, CHR ''a'', CHR 0x5C, CHR 0x22],
             literal = Some (PyStr [CHR ''a'', CHR 0x5C]), line = 1\<rparr>,
            \<lparr>type = EOF, lexeme = [], literal = None, line = 1\<rparr>], [])
    \<and> scan [CHR 0x22, CHR ''a'', CHR 0x0A, CHR 0x0A, CHR ''b'', CHR 0x22, CHR ''+''] =
      Inr ([\<lparr>type = STRING, lexeme = [CHR 0x22, CHR ''a'', CHR 0x0A, CHR 0x0A, CHR ''b'', CHR 0x22],
             literal = Some (PyStr [CHR ''a'', CHR 0x0A, CHR 0x0A, CHR ''b'']), line = 3\<rparr>,
            \<lparr>type = PLUS, lexeme = ''+'', literal = None, line = 3\<rparr>,
            \<lparr>type = EOF, lexeme = [], literal = None, line = 3\<rparr>], [])"
proof -
  let ?s0 = "s\<lparr>start := current s\<rparr>"
  have r0: "rest ?s0 = CHR 0x22 # body @ CHR 0x22 # r" using assms(1) by simp
  have "rest s = (CHR 0x22 # body @ [CHR 0x22]) @ r" using assms(1) by simp
  from slice_head [OF this]
  have sl: "slice (source s) (current s) (Suc (Suc (current s + length body))) =
      CHR 0x22 # body @ [CHR 0x22]"
    by simp
  have "scan_token ?s0 =
      Inr (s\<lparr>start := current s, current := current s + (length body + 2),
            line := line s + newlines body,
            tokens := tokens s @
              [\<lparr>type = STRING, lexeme = CHR 0x22 # body @ [CHR 0x22],
                literal = Some (PyStr body), line = line s + newlines body\<rparr>]\<rparr>)"
    unfolding scan_token_string_closed [OF r0 assms(2), simplified]
    by (simp add: add_token_def sl)
  moreover have "scan [CHR 0x22, CHR ''a'', CHR 0x5C, CHR 0x22] =
      Inr ([\<lparr>type = STRING, lexeme = [CHR 0x22, CHR ''a'', CHR 0x5C, CHR 0x22],
             literal = Some (PyStr [CHR ''a'', CHR 0x5C]), line = 1\<rparr>,
            \<lparr>type = EOF, lexeme = [], literal = None, line = 1\<rparr>], [])"
    by code_simp
  moreover have "scan [CHR 0x22, CHR ''a'', CHR 0x0A, CHR 0x0A, CHR ''b'', CHR 0x22, CHR ''+''] =
      Inr ([\<lparr>type = STRING, lexeme = [CHR 0x22, CHR ''a'', CHR 0x0A, CHR 0x0A, CHR ''b'', CHR 0x22],
             literal = Some (PyStr [CHR ''a'', CHR 0x0A, CHR 0x0A, CHR ''b'']), line = 3\<rparr>,
            \<lparr>type = PLUS, lexeme = ''+'', literal = None, line = 3\<rparr>,
            \<lparr>type = EOF, lexeme = [], literal = None, line = 3\<rparr>], [])"
    by code_simp
  ultimately show ?thesis by blast
qed

theorem string_literal_witness:
  "scan_token (Scanner_init [CHR 0x22, CHR ''a'', CHR 0x0A, CHR ''b'', CHR 0x22, CHR ''+'']) =
     Inr \<lparr>source = [CHR 0x22, CHR ''a'', CHR 0x0A, CHR ''b'', CHR 0x22, CHR ''+''],
          tokens = [\<lparr>type = STRING, lexeme = [CHR 0x22, CHR ''a'', CHR 0x0A, CHR ''b'', CHR 0x22],
                     literal = Some (PyStr [CHR ''a'', CHR 0x0A, CHR ''b'']), line = 2\<rparr>],
          start = 0, current = 5, line = 2, errors = []\<rparr>"
proof -
  let ?s = "Scanner_init [CHR 0x22, CHR ''a'', CHR 0x0A, CHR ''b'', CHR 0x22, CHR ''+'']"
  have h1: "rest ?s = CHR 0x22 # [CHR ''a'', CHR 0x0A, CHR ''b''] @ CHR 0x22 # ''+''"
    by (simp add: rest_def Scanner_init_def)
  have h2: "CHR 0x22 \<notin> set [CHR ''a'', CHR 0x0A, CHR ''b'']" by simp
  have "scan_token (?s\<lparr>start := current ?s\<rparr>) =
      Inr (?s\<lparr>start := current ?s,
            current := current ?s + (length [CHR ''a'', CHR 0x0A, CHR ''b''] + 2),
            line := line ?s + newlines [CHR ''a'', CHR 0x0A, CHR ''b''],
            tokens := tokens ?s @
              [\<lparr>type = STRING, lexeme = CHR 0x22 # [CHR ''a'', CHR 0x0A, CHR ''b''] @ [CHR 0x22],
                literal = Some (PyStr [CHR ''a'', CHR 0x0A, CHR ''b'']),
                line = line ?s + newlines [CHR ''a'', CHR 0x0A, CHR ''b'']\<rparr>]\<rparr>)"
    using string_literal [OF h1 h2] by (rule conjunct1)
  then show ?thesis by (simp add: Scanner_init_def)
qed



text \<open>
  C10. The lookup of reserved words is case-sensitive: \<^verbatim>\<open>identifier_type\<close> gives a keyword
  kind exactly for the sixteen lowercase reserved words, so \<^verbatim>\<open>IF\<close>, \<^verbatim>\<open>If\<close> and \<^verbatim>\<open>True\<close> are
  scanned as \<^verbatim>\<open>IDENTIFIER\<close> tokens.
\<close>

theorem reserved_words_case_sensitive:
  "(identifier_type text \<noteq> IDENTIFIER \<longleftrightarrow>
      text \<in> {''and'', ''class'', ''else'', ''false'', ''for'', ''fun'', ''if'', ''nil'', ''or'',
        ''print'', ''return'', ''super'', ''this'', ''true'', ''var'', ''while''})
   \<and> scan ''IF'' =
      Inr ([\<lparr>type = IDENTIFIER, lexeme = ''IF'', literal = None, line = 1\<rparr>,
            \<lparr>type = EOF, lexeme = [], literal = None, line = 1\<rparr>], [])
   \<and> scan ''If'' =
      Inr ([\<lparr>type = IDENTIFIER, lexeme = ''If'', literal = None, line = 1\<rparr>,
            \<lparr>type = EOF, lexeme = [], literal = None, line = 1\<rparr>], [])
   \<and> scan ''True'' =
      Inr ([\<lparr>type = IDENTIFIER, lexeme = ''True'', literal = None, line = 1\<rparr>,
            \<lparr>type = EOF, lexeme = [], literal = None, line = 1\<rparr>], [])"
proof -
  have "identifier_type text \<noteq> IDENTIFIER \<longleftrightarrow>
      text \<in> {''and'', ''class'', ''else'', ''false'', ''for'', ''fun'', ''if'', ''nil'', ''or'',
        ''print'', ''return'', ''super'', ''this'', ''true'', ''var'', ''while''}"
  proof (cases "map_of reserved_words text")
    case None
    then have "text \<notin> fst ` set reserved_words" by (simp add: map_of_eq_None_iff)
    moreover have "identifier_type text = IDENTIFIER"
      using None by (simp add: identifier_type_def)
    ultimately show ?thesis by (simp add: reserved_words_def)
  next
    case (Some k)
    then have m: "(text, k) \<in> set reserved_words" by (rule map_of_SomeD)
    then have "k \<noteq> IDENTIFIER" unfolding reserved_words_def by auto
    moreover have "text \<in> fst ` set reserved_words" using m by force
    ultimately show ?thesis using Some by (simp add: identifier_type_def reserved_words_def)
  qed
  moreover have "scan ''IF'' =
      Inr ([\<lparr>type = IDENTIFIER, lexeme = ''IF'', literal = None, line = 1\<rparr>,
            \<lparr>type = EOF, lexeme = [], literal = None, line = 1\<rparr>], [])"
    by code_simp
  moreover have "scan ''If'' =
      Inr ([\<lparr>type = IDENTIFIER, lexeme = ''If'', literal = None, line = 1\<rparr>,
            \<lparr>type = EOF, lexeme = [], literal = None, line = 1\<rparr>], [])"
    by code_simp
  moreover have "scan ''True'' =
      Inr ([\<lparr>type = IDENTIFIER, lexeme = ''True'', literal = None, line = 1\<rparr>,
            \<lparr>type = EOF, lexeme = [], literal = None, line = 1\<rparr>], [])"
    by code_simp
  ultimately show ?thesis by blast
qed

theorem reserved_words_case_sensitive_witness:
  "identifier_type ''While'' = IDENTIFIER \<and> identifier_type ''while'' = WHILE"
proof -
  have "identifier_type ''While'' \<noteq> IDENTIFIER \<longleftrightarrow>
      ''While'' \<in> {''and'', ''class'', ''else'', ''false'', ''for'', ''fun'', ''if'', ''nil'', ''or'',
        ''print'', ''return'', ''super'', ''this'', ''true'', ''var'', ''while''}"
    using reserved_words_case_sensitive [of "''While''"] by (rule conjunct1)
  then have "identifier_type ''While'' = IDENTIFIER" by simp
  moreover have "identifier_type ''while'' = WHILE" by code_simp
  ultimately show ?thesis by simp
qed




end
